theory Spec2Isabelle
  imports Main "HOL-Library.Word"
begin

unbundle bit_operations_syntax

section \<open>Machine types, faults and pointers\<close>

text \<open>
  The library targets 64-bit platforms: \<open>usize\<close> is \<open>std::size_t\<close>, a 64-bit unsigned
  integer whose arithmetic wraps around; \<open>byte\<close> is \<open>std::byte\<close>; \<open>String\<close> is
  \<open>std::string\<close>, a sequence of one-byte characters.
\<close>

type_synonym usize = "64 word"
type_synonym u32 = "32 word"
type_synonym byte = "8 word"
type_synonym String = "byte list"

text \<open>
  Behaviour the C++ leaves outside the ordinary result type is a value of \<open>fault\<close>:
  a failed \<open>DAKT_ASSERT\<close> (abort in debug builds, an unchecked assumption in release
  builds), a memory access outside the object it addresses, and a call that breaks the
  documented precondition of a standard-library function.
\<close>

datatype fault = AssertionFailed | OutOfBounds | PreconditionViolated

text \<open>A \<open>void*\<close> is null or an address.\<close>

type_synonym ptr = "nat option"

abbreviation nullptr :: ptr where
  "nullptr \<equiv> None"

section \<open>Memory.hpp: alignment utilities\<close>

text \<open>
  \<open>isPowerOfTwo\<close> forwards to \<open>std::has_single_bit\<close>, which holds exactly for the
  integral powers of two.
\<close>

definition isPowerOfTwo :: "'a::len word \<Rightarrow> bool" where
  "isPowerOfTwo x = (\<exists>k \<in> {..<LENGTH('a)}. x = 2 ^ k)"

text \<open>
  \<open>alignUp(value, alignment)\<close>:
  \<^verbatim>\<open>DAKT_ASSERT(isPowerOfTwo(alignment));
  return (value + alignment - 1) & ~(alignment - 1);\<close>
\<close>

definition alignUp :: "usize \<Rightarrow> usize \<Rightarrow> fault + usize" where
  "alignUp v alignment =
     (if isPowerOfTwo alignment
      then Inr ((v + alignment - 1) AND NOT (alignment - 1))
      else Inl AssertionFailed)"

section \<open>Memory.cpp: ArenaAllocator\<close>

record ArenaAllocator =
  arena_buffer :: nat
  arena_capacity :: usize
  arena_offset :: usize
  arena_ownsBuffer :: bool

text \<open>
  \<open>ArenaAllocator::allocate(size, alignment)\<close>. The result is the returned pointer and
  the allocator afterwards.
\<close>

definition ArenaAllocator_allocate ::
  "ArenaAllocator \<Rightarrow> usize \<Rightarrow> usize \<Rightarrow> fault + (ptr \<times> ArenaAllocator)" where
  "ArenaAllocator_allocate a sz alignment =
     (if sz = 0 then Inr (nullptr, a)
      else case alignUp (arena_offset a) alignment of
             Inl f \<Rightarrow> Inl f
           | Inr alignedOffset \<Rightarrow>
               if alignedOffset + sz > arena_capacity a then Inr (nullptr, a)
               else Inr (Some (arena_buffer a + unat alignedOffset),
                         a\<lparr>arena_offset := alignedOffset + sz\<rparr>))"

section \<open>Buffer.hpp, Buffer.cpp: BufferReader\<close>

text \<open>
  A \<open>BufferReader\<close> holds a borrowed \<open>ConstByteSpan m_data\<close>, modelled by the bytes it
  views, and the cursor \<open>m_pos\<close>.
\<close>

record BufferReader =
  rd_data :: "byte list"
  rd_pos :: usize

definition BufferReader_new :: "byte list \<Rightarrow> BufferReader" where
  "BufferReader_new d = \<lparr>rd_data = d, rd_pos = 0\<rparr>"

definition BufferReader_size :: "BufferReader \<Rightarrow> usize" where
  "BufferReader_size r = of_nat (length (rd_data r))"

definition BufferReader_position :: "BufferReader \<Rightarrow> usize" where
  "BufferReader_position r = rd_pos r"

definition BufferReader_remaining :: "BufferReader \<Rightarrow> usize" where
  "BufferReader_remaining r = BufferReader_size r - rd_pos r"

definition BufferReader_eof :: "BufferReader \<Rightarrow> bool" where
  "BufferReader_eof r = (rd_pos r \<ge> BufferReader_size r)"

text \<open>
  The class invariant: the viewed bytes fit the address space and the cursor is within
  \<open>[0, size()]\<close>.
\<close>

definition reader_inv :: "BufferReader \<Rightarrow> bool" where
  "reader_inv r = (length (rd_data r) < 2 ^ 64 \<and> rd_pos r \<le> BufferReader_size r)"

text \<open>
  Copying \<open>n\<close> bytes out of the viewed data from index \<open>off\<close>
  (\<open>std::memcpy(dest, m_data.data() + off, n)\<close> and the \<open>String(ptr, n)\<close> constructor);
  reading past the viewed bytes is a fault.
\<close>

definition bytes_at :: "byte list \<Rightarrow> usize \<Rightarrow> usize \<Rightarrow> fault + byte list" where
  "bytes_at d off n =
     (if unat off + unat n \<le> length d
      then Inr (take (unat n) (drop (unat off) d))
      else Inl OutOfBounds)"

text \<open>
  \<open>read<T>()\<close> for a trivially copyable \<open>T\<close>, given \<open>sizeof(T)\<close> and the function that
  reads a \<open>T\<close> from its object representation.
\<close>

definition BufferReader_read ::
  "usize \<Rightarrow> (byte list \<Rightarrow> 'a) \<Rightarrow> BufferReader \<Rightarrow> fault + ('a option \<times> BufferReader)" where
  "BufferReader_read sizeof_T from_bytes r =
     (if BufferReader_remaining r < sizeof_T then Inr (None, r)
      else case bytes_at (rd_data r) (rd_pos r) sizeof_T of
             Inl f \<Rightarrow> Inl f
           | Inr bs \<Rightarrow> Inr (Some (from_bytes bs), r\<lparr>rd_pos := rd_pos r + sizeof_T\<rparr>))"

text \<open>
  The object representation of a \<open>u32\<close> depends on \<open>std::endian::native\<close>.
\<close>

datatype endian = little | big

definition u32_le_bytes :: "u32 \<Rightarrow> byte list" where
  "u32_le_bytes v =
     [ucast v, ucast (drop_bit 8 v), ucast (drop_bit 16 v), ucast (drop_bit 24 v)]"

definition u32_of_le_bytes :: "byte list \<Rightarrow> u32" where
  "u32_of_le_bytes bs =
     foldr (\<lambda>b acc. ucast b OR push_bit 8 acc) bs 0"

definition u32_to_bytes :: "endian \<Rightarrow> u32 \<Rightarrow> byte list" where
  "u32_to_bytes native v =
     (case native of little \<Rightarrow> u32_le_bytes v | big \<Rightarrow> rev (u32_le_bytes v))"

definition u32_from_bytes :: "endian \<Rightarrow> byte list \<Rightarrow> u32" where
  "u32_from_bytes native bs =
     (case native of little \<Rightarrow> u32_of_le_bytes bs | big \<Rightarrow> u32_of_le_bytes (rev bs))"

text \<open>\<open>byteSwap\<close> is \<open>std::byteswap\<close>: the bytes of the value in reverse order.\<close>

definition byteSwap :: "u32 \<Rightarrow> u32" where
  "byteSwap v = u32_of_le_bytes (rev (u32_le_bytes v))"

definition toLittleEndian :: "endian \<Rightarrow> u32 \<Rightarrow> u32" where
  "toLittleEndian native v = (if native = big then byteSwap v else v)"

definition fromLittleEndian :: "endian \<Rightarrow> u32 \<Rightarrow> u32" where
  "fromLittleEndian native v = toLittleEndian native v"

definition BufferReader_read_u32 ::
  "endian \<Rightarrow> BufferReader \<Rightarrow> fault + (u32 option \<times> BufferReader)" where
  "BufferReader_read_u32 native r = BufferReader_read 4 (u32_from_bytes native) r"

text \<open>\<open>readLE<u32>()\<close> and \<open>readU32()\<close>.\<close>

definition BufferReader_readLE_u32 ::
  "endian \<Rightarrow> BufferReader \<Rightarrow> fault + (u32 option \<times> BufferReader)" where
  "BufferReader_readLE_u32 native r =
     (case BufferReader_read_u32 native r of
        Inl f \<Rightarrow> Inl f
      | Inr (None, r') \<Rightarrow> Inr (None, r')
      | Inr (Some v, r') \<Rightarrow> Inr (Some (fromLittleEndian native v), r'))"

definition BufferReader_readU32 ::
  "endian \<Rightarrow> BufferReader \<Rightarrow> fault + (u32 option \<times> BufferReader)" where
  "BufferReader_readU32 native r = BufferReader_readLE_u32 native r"

text \<open>\<open>readString(length)\<close>.\<close>

definition BufferReader_readString ::
  "BufferReader \<Rightarrow> usize \<Rightarrow> fault + (String option \<times> BufferReader)" where
  "BufferReader_readString r len =
     (if BufferReader_remaining r < len then Inr (None, r)
      else case bytes_at (rd_data r) (rd_pos r) len of
             Inl f \<Rightarrow> Inl f
           | Inr s \<Rightarrow> Inr (Some s, r\<lparr>rd_pos := rd_pos r + len\<rparr>))"

text \<open>
  The scanning loop shared by the two null-terminated readers,
  \<^verbatim>\<open>while (m_pos < limit && m_data[m_pos] != byte{0}) ++m_pos;\<close>
  with \<open>limit\<close> being \<open>m_data.size()\<close> or a smaller bound, so that the index is in range
  whenever it is read. The result is the final \<open>m_pos\<close>.
\<close>

function scan_nul :: "byte list \<Rightarrow> usize \<Rightarrow> usize \<Rightarrow> usize" where
  "scan_nul d limit p =
     (if p < limit \<and> d ! unat p \<noteq> 0 then scan_nul d limit (p + 1) else p)"
  by pat_completeness auto
termination
proof (relation "measure (\<lambda>(d, limit, p). unat limit - unat p)")
  show "wf (measure (\<lambda>(d, limit, p). unat limit - unat p))"
    by simp
next
  fix d :: "byte list" and limit p :: usize
  assume "p < limit \<and> d ! unat p \<noteq> 0"
  then have lt: "unat p < unat limit"
    by (simp add: word_less_nat_alt)
  have "unat limit < 2 ^ 64"
    using unsigned_less [of limit] by simp
  with lt have "unat p + 1 < 2 ^ 64"
    by linarith
  then have "unat (p + 1) = unat p + 1"
    by (simp add: unat_word_ariths)
  with lt show "((d, limit, p + 1), (d, limit, p)) \<in> measure (\<lambda>(d, limit, p). unat limit - unat p)"
    by simp
qed

declare scan_nul.simps [simp del]

text \<open>\<open>readNullTerminatedString()\<close>.\<close>

definition BufferReader_readNullTerminatedString ::
  "BufferReader \<Rightarrow> fault + (String option \<times> BufferReader)" where
  "BufferReader_readNullTerminatedString r =
     (let start = rd_pos r;
          p = scan_nul (rd_data r) (BufferReader_size r) start
      in if p \<ge> BufferReader_size r then Inr (None, r\<lparr>rd_pos := start\<rparr>)
         else case bytes_at (rd_data r) start (p - start) of
                Inl f \<Rightarrow> Inl f
              | Inr s \<Rightarrow> Inr (Some s, r\<lparr>rd_pos := p + 1\<rparr>))"

text \<open>\<open>readNullTerminatedString(maxLength)\<close>.\<close>

definition BufferReader_readNullTerminatedString_max ::
  "BufferReader \<Rightarrow> usize \<Rightarrow> fault + (String option \<times> BufferReader)" where
  "BufferReader_readNullTerminatedString_max r maxLength =
     (let start = rd_pos r;
          limit = min (rd_pos r + maxLength) (BufferReader_size r);
          p = scan_nul (rd_data r) limit start
      in case bytes_at (rd_data r) start (p - start) of
           Inl f \<Rightarrow> Inl f
         | Inr s \<Rightarrow>
             Inr (Some s,
                  r\<lparr>rd_pos := (if p < BufferReader_size r \<and> rd_data r ! unat p = 0
                                then p + 1 else p)\<rparr>))"

text \<open>
  \<open>readLengthPrefixedString()\<close>: the prefix is read with \<open>read<u32>()\<close>, and the
  \<open>u32\<close> length converts to \<open>usize\<close> for \<open>readString\<close>.
\<close>

definition BufferReader_readLengthPrefixedString ::
  "endian \<Rightarrow> BufferReader \<Rightarrow> fault + (String option \<times> BufferReader)" where
  "BufferReader_readLengthPrefixedString native r =
     (case BufferReader_read_u32 native r of
        Inl f \<Rightarrow> Inl f
      | Inr (None, r') \<Rightarrow> Inr (None, r')
      | Inr (Some len, r') \<Rightarrow> BufferReader_readString r' (ucast len))"

section \<open>Buffer.hpp, Buffer.cpp: Buffer\<close>

text \<open>
  A \<open>Buffer\<close> owns a \<open>std::vector<byte> m_data\<close>. The vector is modelled by its
  \<open>size()\<close> elements and by the raw storage it has reserved after them, so that
  \<open>capacity()\<close> is the length of both together. The reserved storage is not part of the
  vector's value: no vector operation reads it, \<open>resize\<close> value-initialises the elements
  it appends (for \<open>std::byte\<close>, to zero), and a reallocation carries over the elements
  only. Storage obtained by a reallocation is uninitialised; the model fills it with an
  arbitrary byte \<open>junk\<close>.
\<close>

record Buffer =
  m_data :: "byte list"
  m_spare :: "byte list"

definition Buffer_empty :: Buffer where
  "Buffer_empty = \<lparr>m_data = [], m_spare = []\<rparr>"

text \<open>\<open>Buffer(ConstByteSpan span)\<close> copies the viewed bytes.\<close>

definition Buffer_of_span :: "byte list \<Rightarrow> Buffer" where
  "Buffer_of_span bs = \<lparr>m_data = bs, m_spare = []\<rparr>"

definition Buffer_size :: "Buffer \<Rightarrow> usize" where
  "Buffer_size b = of_nat (length (m_data b))"

definition Buffer_capacity :: "Buffer \<Rightarrow> usize" where
  "Buffer_capacity b = of_nat (length (m_data b) + length (m_spare b))"

text \<open>\<open>Buffer::span()\<close> views the elements.\<close>

definition Buffer_span :: "Buffer \<Rightarrow> byte list" where
  "Buffer_span b = m_data b"

text \<open>
  \<open>Buffer::reserve(newCapacity)\<close> is \<open>m_data.reserve(newCapacity)\<close>: when the request
  exceeds the capacity, the elements move to new storage of that capacity.
\<close>

definition Buffer_reserve :: "byte \<Rightarrow> Buffer \<Rightarrow> usize \<Rightarrow> Buffer" where
  "Buffer_reserve junk b newCapacity =
     (if Buffer_capacity b < newCapacity
      then b\<lparr>m_spare := replicate (unat newCapacity - length (m_data b)) junk\<rparr>
      else b)"

text \<open>
  \<open>Buffer::resize(newSize)\<close> is \<open>m_data.resize(newSize)\<close>: growing appends
  value-initialised bytes, taking their storage from the reserved part first; shrinking
  drops elements and keeps their storage reserved.
\<close>

definition Buffer_resize :: "Buffer \<Rightarrow> usize \<Rightarrow> Buffer" where
  "Buffer_resize b newSize =
     (let n = unat newSize; sz = length (m_data b)
      in if n > sz
         then b\<lparr>m_data := m_data b @ replicate (n - sz) 0,
                m_spare := drop (n - sz) (m_spare b)\<rparr>
         else b\<lparr>m_data := take n (m_data b),
                m_spare := drop n (m_data b) @ m_spare b\<rparr>)"

text \<open>
  \<open>std::memcpy(data() + pos, src, n)\<close> into the buffer's storage: the bytes land in the
  elements below \<open>size()\<close> and in the reserved storage from there on; a copy that runs
  past the capacity is a fault.
\<close>

definition Buffer_store :: "Buffer \<Rightarrow> usize \<Rightarrow> byte list \<Rightarrow> fault + Buffer" where
  "Buffer_store b pos src =
     (let storage = m_data b @ m_spare b; p = unat pos; n = length src
      in if p + n \<le> length storage
         then let storage' = take p storage @ src @ drop (p + n) storage
              in Inr (b\<lparr>m_data := take (length (m_data b)) storage',
                        m_spare := drop (length (m_data b)) storage'\<rparr>)
         else Inl OutOfBounds)"

text \<open>
  A byte span as a view into a buffer: the index of its first byte and its size.
  \<open>ByteSpan\<close> and \<open>ConstByteSpan\<close> are \<open>std::span\<close>, whose \<open>subspan(offset, count)\<close>
  requires \<open>offset <= size() && (count == dynamic_extent || count <= size() - offset)\<close>
  and returns the view \<open>{data() + offset, count == dynamic_extent ? size() - offset : count}\<close>.
\<close>

record byte_span =
  span_data :: nat
  span_size :: usize

definition dynamic_extent :: usize where
  "dynamic_extent = - 1"

definition std_span_subspan :: "byte_span \<Rightarrow> usize \<Rightarrow> usize \<Rightarrow> fault + byte_span" where
  "std_span_subspan sp offset count =
     (if offset \<le> span_size sp \<and> (count = dynamic_extent \<or> count \<le> span_size sp - offset)
      then Inr \<lparr>span_data = span_data sp + unat offset,
                span_size = (if count = dynamic_extent then span_size sp - offset else count)\<rparr>
      else Inl PreconditionViolated)"

text \<open>\<open>Buffer::subspan(offset, count)\<close> is \<open>ConstByteSpan(m_data).subspan(offset, count)\<close>.\<close>

definition Buffer_subspan :: "Buffer \<Rightarrow> usize \<Rightarrow> usize \<Rightarrow> fault + byte_span" where
  "Buffer_subspan b offset count =
     std_span_subspan \<lparr>span_data = 0, span_size = Buffer_size b\<rparr> offset count"

section \<open>Buffer.hpp, Buffer.cpp: BufferWriter\<close>

text \<open>
  A \<open>BufferWriter\<close> writes through \<open>m_buffer\<close>, which points to its own
  \<open>m_ownedBuffer\<close> or to a caller's buffer. The model keeps the buffer written to, whether
  it is the owned one, and the cursor \<open>m_pos\<close>.
\<close>

record BufferWriter =
  wr_buffer :: Buffer
  wr_owned :: bool
  wr_pos :: usize

definition BufferWriter_new :: BufferWriter where
  "BufferWriter_new = \<lparr>wr_buffer = Buffer_empty, wr_owned = True, wr_pos = 0\<rparr>"

definition BufferWriter_ensureCapacity :: "byte \<Rightarrow> BufferWriter \<Rightarrow> usize \<Rightarrow> BufferWriter" where
  "BufferWriter_ensureCapacity junk w minCapacity =
     (if Buffer_capacity (wr_buffer w) < minCapacity
      then w\<lparr>wr_buffer :=
               Buffer_reserve junk (wr_buffer w)
                 (max minCapacity (Buffer_capacity (wr_buffer w) * 2))\<rparr>
      else w)"

definition BufferWriter_updateSize :: "BufferWriter \<Rightarrow> BufferWriter" where
  "BufferWriter_updateSize w =
     (if wr_pos w > Buffer_size (wr_buffer w)
      then w\<lparr>wr_buffer := Buffer_resize (wr_buffer w) (wr_pos w)\<rparr>
      else w)"

text \<open>
  \<open>write(data, size)\<close>, with the source bytes as a list:
  \<^verbatim>\<open>ensureCapacity(m_pos + size);
  std::memcpy(dataPtr() + m_pos, data, size);
  m_pos += size;
  updateSize();\<close>
  The template \<open>write<T>(value)\<close> has the same body with \<open>&value\<close> and \<open>sizeof(T)\<close>.
\<close>

definition BufferWriter_write :: "byte \<Rightarrow> BufferWriter \<Rightarrow> byte list \<Rightarrow> fault + BufferWriter" where
  "BufferWriter_write junk w src =
     (let sz = of_nat (length src) :: usize;
          w1 = BufferWriter_ensureCapacity junk w (wr_pos w + sz)
      in case Buffer_store (wr_buffer w1) (wr_pos w1) src of
           Inl f \<Rightarrow> Inl f
         | Inr b \<Rightarrow>
             Inr (BufferWriter_updateSize (w1\<lparr>wr_buffer := b, wr_pos := wr_pos w1 + sz\<rparr>)))"

definition BufferWriter_write_u32 ::
  "endian \<Rightarrow> byte \<Rightarrow> BufferWriter \<Rightarrow> u32 \<Rightarrow> fault + BufferWriter" where
  "BufferWriter_write_u32 native junk w v = BufferWriter_write junk w (u32_to_bytes native v)"

text \<open>\<open>writeLE<u32>(value)\<close> and \<open>writeU32(value)\<close>.\<close>

definition BufferWriter_writeLE_u32 ::
  "endian \<Rightarrow> byte \<Rightarrow> BufferWriter \<Rightarrow> u32 \<Rightarrow> fault + BufferWriter" where
  "BufferWriter_writeLE_u32 native junk w v =
     BufferWriter_write_u32 native junk w (toLittleEndian native v)"

definition BufferWriter_writeU32 ::
  "endian \<Rightarrow> byte \<Rightarrow> BufferWriter \<Rightarrow> u32 \<Rightarrow> fault + BufferWriter" where
  "BufferWriter_writeU32 native junk w v = BufferWriter_writeLE_u32 native junk w v"

text \<open>
  \<open>writeLengthPrefixedString(str)\<close>:
  \<^verbatim>\<open>write<u32>(static_cast<u32>(str.size()));
  write(str.data(), str.size());\<close>
\<close>

definition BufferWriter_writeLengthPrefixedString ::
  "endian \<Rightarrow> byte \<Rightarrow> BufferWriter \<Rightarrow> String \<Rightarrow> fault + BufferWriter" where
  "BufferWriter_writeLengthPrefixedString native junk w str =
     (case BufferWriter_write_u32 native junk w (ucast (of_nat (length str) :: usize)) of
        Inl f \<Rightarrow> Inl f
      | Inr w1 \<Rightarrow> BufferWriter_write junk w1 str)"

text \<open>
  \<open>toBuffer()\<close> moves the owned buffer out, leaving it empty, or copies the span of the
  caller's buffer.
\<close>

definition BufferWriter_toBuffer :: "BufferWriter \<Rightarrow> Buffer \<times> BufferWriter" where
  "BufferWriter_toBuffer w =
     (if wr_owned w then (wr_buffer w, w\<lparr>wr_buffer := Buffer_empty\<rparr>)
      else (Buffer_of_span (Buffer_span (wr_buffer w)), w))"

text \<open>
  A writer whose cursor is at the end of its buffer, the state of a fresh writer and of
  one that has only appended; the capacity fits \<open>usize\<close>.
\<close>

definition writer_at_end :: "BufferWriter \<Rightarrow> bool" where
  "writer_at_end w =
     (wr_pos w = Buffer_size (wr_buffer w)
      \<and> length (m_data (wr_buffer w)) + length (m_spare (wr_buffer w)) < 2 ^ 64)"

text \<open>
  The end-to-end scenario on a fresh writer:
  \<^verbatim>\<open>BufferWriter w; w.writeU32(v); w.writeLengthPrefixedString(s);
  auto buf = w.toBuffer(); BufferReader r(buf.span());\<close>
  followed by \<open>r.readU32()\<close>, \<open>r.readLengthPrefixedString()\<close> and \<open>r.eof()\<close>, whose three
  results it returns.
\<close>

definition write_then_read ::
  "endian \<Rightarrow> byte \<Rightarrow> u32 \<Rightarrow> String \<Rightarrow> fault + (u32 option \<times> String option \<times> bool)" where
  "write_then_read native junk v s =
     (case BufferWriter_writeU32 native junk BufferWriter_new v of
        Inl f \<Rightarrow> Inl f
      | Inr w1 \<Rightarrow>
     (case BufferWriter_writeLengthPrefixedString native junk w1 s of
        Inl f \<Rightarrow> Inl f
      | Inr w2 \<Rightarrow>
     (let buf = fst (BufferWriter_toBuffer w2);
          r = BufferReader_new (Buffer_span buf)
      in case BufferReader_readU32 native r of
           Inl f \<Rightarrow> Inl f
         | Inr (x, r1) \<Rightarrow>
        (case BufferReader_readLengthPrefixedString native r1 of
           Inl f \<Rightarrow> Inl f
         | Inr (y, r2) \<Rightarrow> Inr (x, y, BufferReader_eof r2)))))"

section \<open>Memory.cpp: HeapAllocator\<close>

text \<open>
  The platform heap holds the live blocks: address and content. \<open>HeapAllocator::allocate\<close>
  calls \<open>_aligned_malloc(size, alignment)\<close> on Windows and
  \<open>std::aligned_alloc(alignment, alignUp(size, alignment))\<close> elsewhere; the model takes what
  that call returns as \<open>fresh\<close>: null, or the address of a new block, whose bytes are
  uninitialised (\<open>junk\<close>). The allocation counters of debug builds are left out.
\<close>

type_synonym heap = "nat \<rightharpoonup> byte list"

datatype platform = Windows | Posix

definition HeapAllocator_allocate ::
  "platform \<Rightarrow> ptr \<Rightarrow> byte \<Rightarrow> heap \<Rightarrow> usize \<Rightarrow> usize \<Rightarrow> fault + (ptr \<times> heap)" where
  "HeapAllocator_allocate pf fresh junk h sz alignment =
     (if sz = 0 then Inr (nullptr, h)
      else case (case pf of Windows \<Rightarrow> Inr sz | Posix \<Rightarrow> alignUp sz alignment) of
             Inl f \<Rightarrow> Inl f
           | Inr n \<Rightarrow>
               (case fresh of
                  None \<Rightarrow> Inr (nullptr, h)
                | Some a \<Rightarrow> Inr (Some a, h(a \<mapsto> replicate (unat n) junk))))"

text \<open>
  \<open>HeapAllocator::deallocate(ptr, size)\<close>: null is ignored; freeing an address that is not
  a live block breaks the precondition of \<open>std::free\<close>.
\<close>

definition HeapAllocator_deallocate :: "heap \<Rightarrow> ptr \<Rightarrow> usize \<Rightarrow> fault + heap" where
  "HeapAllocator_deallocate h ptr sz =
     (case ptr of
        None \<Rightarrow> Inr h
      | Some a \<Rightarrow> if a \<in> dom h then Inr (h(a := None)) else Inl PreconditionViolated)"

text \<open>\<open>std::memcpy(dst, src, n)\<close> between two live blocks.\<close>

definition heap_memcpy :: "heap \<Rightarrow> nat \<Rightarrow> nat \<Rightarrow> usize \<Rightarrow> fault + heap" where
  "heap_memcpy h dst src n =
     (case (h dst, h src) of
        (Some d, Some s) \<Rightarrow>
          if unat n \<le> length d \<and> unat n \<le> length s
          then Inr (h(dst \<mapsto> take (unat n) s @ drop (unat n) d))
          else Inl OutOfBounds
      | _ \<Rightarrow> Inl OutOfBounds)"

text \<open>\<open>HeapAllocator::reallocate(ptr, oldSize, newSize, alignment)\<close>.\<close>

definition HeapAllocator_reallocate ::
  "platform \<Rightarrow> ptr \<Rightarrow> byte \<Rightarrow> heap \<Rightarrow> ptr \<Rightarrow> usize \<Rightarrow> usize \<Rightarrow> usize \<Rightarrow> fault + (ptr \<times> heap)" where
  "HeapAllocator_reallocate pf fresh junk h ptr oldSize newSize alignment =
     (if newSize = 0
      then case HeapAllocator_deallocate h ptr oldSize of
             Inl f \<Rightarrow> Inl f
           | Inr h' \<Rightarrow> Inr (nullptr, h')
      else if ptr = nullptr
      then HeapAllocator_allocate pf fresh junk h newSize alignment
      else case HeapAllocator_allocate pf fresh junk h newSize alignment of
             Inl f \<Rightarrow> Inl f
           | Inr (None, h1) \<Rightarrow> Inr (nullptr, h1)
           | Inr (Some newPtr, h1) \<Rightarrow>
               (case heap_memcpy h1 newPtr (the ptr) (min oldSize newSize) of
                  Inl f \<Rightarrow> Inl f
                | Inr h2 \<Rightarrow>
                    (case HeapAllocator_deallocate h2 ptr oldSize of
                       Inl f \<Rightarrow> Inl f
                     | Inr h3 \<Rightarrow> Inr (Some newPtr, h3))))"

section \<open>Memory.cpp: PoolAllocator\<close>

text \<open>
  A \<open>PoolAllocator\<close> threads its free list through the blocks themselves: a free block
  starts with a \<open>FreeBlock\<close>, whose only member is the pointer \<open>next\<close>. The model keeps,
  next to the members of the class, the memory of the region as the \<open>next\<close> pointer stored
  at each address. \<open>sizeof(FreeBlock)\<close> is the size of a pointer.
\<close>

record PoolAllocator =
  pool_buffer :: nat
  pool_freeList :: ptr
  pool_blockSize :: usize
  pool_blockCount :: usize
  pool_freeCount :: usize
  pool_next :: "nat \<Rightarrow> ptr"

definition sizeof_FreeBlock :: usize where
  "sizeof_FreeBlock = 8"

text \<open>
  The loop of the constructor, over the indices \<open>i = 0, \<dots>, m_blockCount - 1\<close>:
  \<^verbatim>\<open>auto* block = reinterpret_cast<FreeBlock*>(m_buffer + i * m_blockSize);
  block->next = m_freeList;
  m_freeList = block;\<close>
  The product \<open>i * m_blockSize\<close> is taken in \<open>usize\<close>; storing a \<open>FreeBlock\<close> outside
  the \<open>region_size\<close> bytes that were allocated is a fault.
\<close>

fun init_free_list ::
  "nat \<Rightarrow> usize \<Rightarrow> nat \<Rightarrow> nat list \<Rightarrow> ptr \<times> (nat \<Rightarrow> ptr) \<Rightarrow> fault + (ptr \<times> (nat \<Rightarrow> ptr))" where
  "init_free_list base blockSize region_size [] st = Inr st"
| "init_free_list base blockSize region_size (i # is) (freeList, mem) =
     (let off = unat (of_nat i * blockSize)
      in if off + unat sizeof_FreeBlock \<le> region_size
         then init_free_list base blockSize region_size is
                (Some (base + off), mem(base + off := freeList))
         else Inl OutOfBounds)"

text \<open>
  \<open>PoolAllocator(blockSize, blockCount)\<close>, given what
  \<open>std::malloc(m_blockSize * m_blockCount)\<close> returns (null, or the address of a region of
  that many bytes) and the content of the memory before.
\<close>

definition PoolAllocator_new ::
  "ptr \<Rightarrow> (nat \<Rightarrow> ptr) \<Rightarrow> usize \<Rightarrow> usize \<Rightarrow> fault + PoolAllocator" where
  "PoolAllocator_new region mem blockSize blockCount =
     (let bs = max blockSize sizeof_FreeBlock
      in case region of
           None \<Rightarrow> Inl AssertionFailed
         | Some base \<Rightarrow>
             (case init_free_list base bs (unat (bs * blockCount)) [0..<unat blockCount]
                     (nullptr, mem) of
                Inl f \<Rightarrow> Inl f
              | Inr (freeList, mem') \<Rightarrow>
                  Inr \<lparr>pool_buffer = base, pool_freeList = freeList, pool_blockSize = bs,
                       pool_blockCount = blockCount, pool_freeCount = blockCount,
                       pool_next = mem'\<rparr>))"

text \<open>\<open>PoolAllocator::allocate(size, alignment)\<close>.\<close>

definition PoolAllocator_allocate ::
  "PoolAllocator \<Rightarrow> usize \<Rightarrow> usize \<Rightarrow> ptr \<times> PoolAllocator" where
  "PoolAllocator_allocate p sz alignment =
     (if sz > pool_blockSize p \<or> pool_freeList p = nullptr then (nullptr, p)
      else let block = the (pool_freeList p)
           in (Some block,
               p\<lparr>pool_freeList := pool_next p block, pool_freeCount := pool_freeCount p - 1\<rparr>))"

text \<open>
  \<open>PoolAllocator::deallocate(ptr, size)\<close>, with its assertion
  \<open>ptr >= m_buffer && ptr < m_buffer + m_blockSize * m_blockCount\<close>.
\<close>

definition PoolAllocator_deallocate ::
  "PoolAllocator \<Rightarrow> ptr \<Rightarrow> usize \<Rightarrow> fault + PoolAllocator" where
  "PoolAllocator_deallocate p ptr sz =
     (case ptr of
        None \<Rightarrow> Inr p
      | Some a \<Rightarrow>
          if pool_buffer p \<le> a
             \<and> a < pool_buffer p + unat (pool_blockSize p * pool_blockCount p)
          then Inr (p\<lparr>pool_next := (pool_next p)(a := pool_freeList p),
                      pool_freeList := Some a,
                      pool_freeCount := pool_freeCount p + 1\<rparr>)
          else Inl AssertionFailed)"

text \<open>
  A sequence of calls on one pool. The run keeps, beside the pool, the set of blocks
  that \<open>allocate\<close> has handed out and that have not been given back. Deallocating a
  pointer that is neither null nor in that set breaks the caller's contract, and is the
  only source of \<open>PreconditionViolated\<close>.
\<close>

datatype pool_op = Allocate usize usize | Deallocate ptr usize

fun pool_run :: "PoolAllocator \<times> nat set \<Rightarrow> pool_op list \<Rightarrow> fault + (PoolAllocator \<times> nat set)" where
  "pool_run s [] = Inr s"
| "pool_run (p, live) (Allocate sz alignment # ops) =
     (case PoolAllocator_allocate p sz alignment of
        (None, p') \<Rightarrow> pool_run (p', live) ops
      | (Some a, p') \<Rightarrow> pool_run (p', insert a live) ops)"
| "pool_run (p, live) (Deallocate ptr sz # ops) =
     (if ptr \<noteq> nullptr \<and> the ptr \<notin> live then Inl PreconditionViolated
      else case PoolAllocator_deallocate p ptr sz of
             Inl f \<Rightarrow> Inl f
           | Inr p' \<Rightarrow> pool_run (p', live - set_option ptr) ops)"

text \<open>
  The free list as a path in memory: from \<open>head\<close>, following \<open>next\<close>, through exactly the
  addresses \<open>as\<close> to null.
\<close>

fun free_path :: "(nat \<Rightarrow> ptr) \<Rightarrow> ptr \<Rightarrow> nat list \<Rightarrow> bool" where
  "free_path mem head [] = (head = nullptr)"
| "free_path mem head (a # as) = (head = Some a \<and> free_path mem (mem a) as)"

text \<open>
  The invariant of a pool together with the set \<open>live\<close> of blocks handed out: the free
  list is a path through distinct blocks, the free and the live blocks partition the
  blocks of the region, \<open>m_freeCount\<close> is the length of the free list, and the region size
  \<open>m_blockSize * m_blockCount\<close> fits \<open>usize\<close>.
\<close>

definition pool_block_addr :: "PoolAllocator \<Rightarrow> nat \<Rightarrow> nat" where
  "pool_block_addr p i = pool_buffer p + i * unat (pool_blockSize p)"

definition pool_blocks :: "PoolAllocator \<Rightarrow> nat set" where
  "pool_blocks p = pool_block_addr p ` {..<unat (pool_blockCount p)}"

definition pool_inv :: "PoolAllocator \<Rightarrow> nat set \<Rightarrow> bool" where
  "pool_inv p live =
     (\<exists>fl. free_path (pool_next p) (pool_freeList p) fl
           \<and> distinct fl
           \<and> set fl \<inter> live = {}
           \<and> set fl \<union> live = pool_blocks p
           \<and> length fl = unat (pool_freeCount p)
           \<and> 0 < unat (pool_blockSize p)
           \<and> unat (pool_blockSize p) * unat (pool_blockCount p) < 2 ^ 64)"

section \<open>Word arithmetic\<close>

lemma unat_exp_usize:
  fixes k :: nat
  assumes "k < LENGTH('a::len)"
  shows "unat (2 ^ k :: 'a word) = 2 ^ k"
proof -
  have "unat (2 ^ k :: 'a word) = unat (word_of_nat (2 ^ k) :: 'a word)"
    by simp
  also have "\<dots> = 2 ^ k mod 2 ^ LENGTH('a)"
    by (simp only: unat_of_nat)
  also have "\<dots> = 2 ^ k"
    using assms by simp
  finally show ?thesis .
qed

lemma unat_mask_word:
  assumes "k < LENGTH('a::len)"
  shows "unat (mask k :: 'a word) = 2 ^ k - 1"
proof -
  have "unat (mask k :: 'a word) = nat (uint (mask k :: 'a word))"
    by simp
  also have "\<dots> = nat (mask k)"
    using assms by (simp only: uint_mask_eq min.absorb2 less_imp_le)
  also have "\<dots> = mask k"
    by (simp only: nat_mask_eq)
  also have "\<dots> = 2 ^ k - 1"
    by (simp only: mask_eq_exp_minus_1)
  finally show ?thesis .
qed

lemma and_not_mask_push_drop:
  "(x :: 'a::len word) AND NOT (mask k) = push_bit k (drop_bit k x)"
  by (rule bit_eqI) (auto simp add: bit_simps)

lemma unat_and_not_mask:
  "unat ((x :: 'a::len word) AND NOT (mask k)) = 2 ^ k * (unat x div 2 ^ k)"
proof -
  have "push_bit k (drop_bit k x) + take_bit k x = x"
    by (rule bits_ident)
  then have "push_bit k (drop_bit k x) = x - take_bit k x"
    by (simp add: eq_diff_eq)
  moreover have tb: "unat (take_bit k x) = unat x mod 2 ^ k"
    unfolding unsigned_take_bit_eq by (simp add: take_bit_eq_mod)
  moreover have "take_bit k x \<le> x"
    unfolding word_le_nat_alt tb by simp
  ultimately have "unat (push_bit k (drop_bit k x)) = unat x - unat x mod 2 ^ k"
    by (simp add: unat_sub)
  also have "\<dots> = 2 ^ k * (unat x div 2 ^ k)"
    by (simp add: minus_mod_eq_mult_div)
  finally show ?thesis
    by (simp add: and_not_mask_push_drop)
qed

lemma unat_round_up_word:
  assumes "k < LENGTH('a::len)"
  shows "unat (((v :: 'a word) + 2 ^ k - 1) AND NOT (2 ^ k - 1)) =
         2 ^ k * (((unat v + 2 ^ k - 1) mod 2 ^ LENGTH('a)) div 2 ^ k)"
proof -
  have m: "(2 ^ k :: 'a word) - 1 = mask k"
    by (simp add: mask_eq_exp_minus_1)
  have "v + 2 ^ k - 1 = v + mask k"
    by (simp add: mask_eq_exp_minus_1)
  then have "(v + 2 ^ k - 1) AND NOT (2 ^ k - 1) = (v + mask k) AND NOT (mask k)"
    by (simp only: m)
  moreover have "unat (v + mask k) = (unat v + 2 ^ k - 1) mod 2 ^ LENGTH('a)"
    unfolding unat_word_ariths unat_mask_word [OF assms] by (simp add: Nat.add_diff_assoc)
  ultimately show ?thesis
    by (simp add: unat_and_not_mask)
qed

lemma round_up_nat:
  fixes V S :: nat
  assumes "0 < S"
  shows "V \<le> S * ((V + S - 1) div S)" and "S * ((V + S - 1) div S) - V < S"
proof -
  let ?a = "V + S - 1"
  have e: "S * (?a div S) = ?a - ?a mod S"
    by (simp add: minus_mod_eq_mult_div)
  have m: "?a mod S < S"
    using assms by simp
  have l: "?a mod S \<le> ?a"
    by simp
  show "V \<le> S * (?a div S)"
    unfolding e using m l assms by linarith
  show "S * (?a div S) - V < S"
    unfolding e using m l assms by linarith
qed

lemma round_up_word_props:
  fixes v :: "'a::len word"
  assumes k: "k < LENGTH('a)"
  defines "r \<equiv> (v + 2 ^ k - 1) AND NOT (2 ^ k - 1)"
  shows "r mod 2 ^ k = 0"
    and "r - v < 2 ^ k"
    and "v \<le> r \<longleftrightarrow> unat v + 2 ^ k \<le> 2 ^ LENGTH('a)"
proof -
  let ?N = "2 ^ LENGTH('a) :: nat"
  let ?S = "2 ^ k :: nat"
  let ?V = "unat v"
  let ?R = "unat r"
  have R: "?R = ?S * (((?V + ?S - 1) mod ?N) div ?S)"
    unfolding r_def by (rule unat_round_up_word [OF k])
  have uS: "unat (2 ^ k :: 'a word) = ?S"
    by (rule unat_exp_usize [OF k])
  have VN: "?V < ?N"
    by (rule unsigned_less)
  have SN: "?S < ?N"
    using k by simp
  have Spos: "0 < ?S"
    by simp
  have small: "(?V + ?S - 1) mod ?N = ?V + ?S - 1" if "?V + ?S \<le> ?N"
  proof -
    from that have "?V + ?S - 1 < ?N"
      using Spos by linarith
    then show ?thesis
      by (rule mod_less)
  qed
  have wrapped: "?R = 0" if "\<not> ?V + ?S \<le> ?N"
  proof -
    from that have "\<not> ?V + ?S - 1 < ?N" "?V + ?S - 1 - ?N < ?N"
      using VN SN by linarith+
    then have "(?V + ?S - 1) mod ?N = ?V + ?S - 1 - ?N"
      by (subst mod_if) (simp only: if_False mod_less)
    moreover have "?V + ?S - 1 - ?N < ?S"
      using VN Spos by linarith
    ultimately show ?thesis
      unfolding R by simp
  qed
  show "r mod 2 ^ k = 0"
    by (rule word_unat_eq_iff [THEN iffD2]) (simp add: unat_mod uS R)
  show le_iff: "v \<le> r \<longleftrightarrow> ?V + ?S \<le> ?N"
  proof (cases "?V + ?S \<le> ?N")
    case True
    have "?V \<le> ?R"
      unfolding R small [OF True] by (rule round_up_nat(1) [OF Spos])
    with True show ?thesis
      by (simp add: word_le_nat_alt)
  next
    case False
    moreover have "0 < ?V"
      using False SN by linarith
    ultimately show ?thesis
      using wrapped [OF False] by (simp add: word_le_nat_alt)
  qed
  show "r - v < 2 ^ k"
  proof (cases "?V + ?S \<le> ?N")
    case True
    have le: "v \<le> r"
      using le_iff True by simp
    have "?R - ?V < ?S"
      unfolding R small [OF True] by (rule round_up_nat(2) [OF Spos])
    then show ?thesis
      by (simp add: word_less_nat_alt unat_sub [OF le] uS)
  next
    case False
    have z: "r = 0"
      using wrapped [OF False] by (simp add: unat_eq_0)
    have Vpos: "0 < ?V"
      using False SN by linarith
    have "unat (0 - v) = ?N - ?V"
      using Vpos by (subst unat_sub_if') simp
    moreover have "?N - ?V < ?S"
      using False VN by linarith
    ultimately show ?thesis
      unfolding z by (simp add: word_less_nat_alt uS)
  qed
qed

lemma isPowerOfTwo_exp:
  "k < LENGTH('a::len) \<Longrightarrow> isPowerOfTwo (2 ^ k :: 'a word)"
  by (auto simp add: isPowerOfTwo_def)

lemma isPowerOfTwoE:
  assumes "isPowerOfTwo (x :: 'a::len word)"
  obtains k where "k < LENGTH('a)" and "x = 2 ^ k"
  using assms by (auto simp add: isPowerOfTwo_def)

section \<open>BufferReader: cursor arithmetic and the scanning loop\<close>

lemma unat_lt_usize: "unat (w :: usize) < 18446744073709551616"
proof -
  have "unat w < 2 ^ LENGTH(64)"
    by (rule unsigned_less)
  then show ?thesis
    by simp
qed

lemma unat_succ_less:
  fixes p limit :: usize
  assumes "p < limit"
  shows "unat (p + 1) = Suc (unat p)"
proof -
  from assms have lt: "unat p < unat limit"
    by (simp add: word_less_nat_alt)
  have "unat limit < 2 ^ 64"
    using unsigned_less [of limit] by simp
  with lt have "unat p + 1 < 2 ^ 64"
    by linarith
  then show ?thesis
    by (simp add: unat_word_ariths)
qed

lemma scan_nul_props:
  assumes "p \<le> limit"
  shows "p \<le> scan_nul d limit p \<and> scan_nul d limit p \<le> limit
         \<and> (\<forall>i. unat p \<le> i \<and> i < unat (scan_nul d limit p) \<longrightarrow> d ! i \<noteq> 0)
         \<and> (scan_nul d limit p < limit \<longrightarrow> d ! unat (scan_nul d limit p) = 0)"
  using assms
proof (induction d limit p rule: scan_nul.induct)
  case (1 d limit p)
  show ?case
  proof (cases "p < limit \<and> d ! unat p \<noteq> 0")
    case True
    then have lt: "p < limit" and nz: "d ! unat p \<noteq> 0"
      by simp_all
    have u: "unat (p + 1) = Suc (unat p)"
      by (rule unat_succ_less [OF lt])
    have le1: "p + 1 \<le> limit"
      using lt u by (simp add: word_le_nat_alt word_less_nat_alt)
    have pp: "p \<le> p + 1"
      using u by (simp add: word_le_nat_alt)
    have eq: "scan_nul d limit p = scan_nul d limit (p + 1)"
      using True by (subst scan_nul.simps) simp
    note IH = "1.IH" [OF True le1]
    have "\<forall>i. unat p \<le> i \<and> i < unat (scan_nul d limit (p + 1)) \<longrightarrow> d ! i \<noteq> 0"
    proof (intro allI impI)
      fix i assume i: "unat p \<le> i \<and> i < unat (scan_nul d limit (p + 1))"
      show "d ! i \<noteq> 0"
      proof (cases "i = unat p")
        case True
        with nz show ?thesis by simp
      next
        case False
        with i have "unat (p + 1) \<le> i" using u by simp
        with i IH show ?thesis by blast
      qed
    qed
    with IH pp show ?thesis
      unfolding eq by auto
  next
    case False
    then have eq: "scan_nul d limit p = p"
      by (subst scan_nul.simps) auto
    from False "1.prems" show ?thesis
      unfolding eq by auto
  qed
qed

lemma scan_nul_stop:
  "\<not> p < limit \<Longrightarrow> scan_nul d limit p = p"
  by (subst scan_nul.simps) simp

lemma unat_reader_size:
  "reader_inv r \<Longrightarrow> unat (BufferReader_size r) = length (rd_data r)"
  by (simp add: reader_inv_def BufferReader_size_def unat_of_nat)

lemma unat_reader_pos:
  "reader_inv r \<Longrightarrow> unat (rd_pos r) \<le> length (rd_data r)"
  using unat_reader_size [of r] by (simp add: reader_inv_def word_le_nat_alt)

lemma unat_reader_remaining:
  assumes "reader_inv r"
  shows "unat (BufferReader_remaining r) = length (rd_data r) - unat (rd_pos r)"
proof -
  have "rd_pos r \<le> BufferReader_size r"
    using assms by (simp add: reader_inv_def)
  then show ?thesis
    unfolding BufferReader_remaining_def
    by (simp add: unat_sub unat_reader_size [OF assms])
qed

lemma reader_advance:
  assumes inv: "reader_inv r" and n: "n \<le> BufferReader_remaining r"
  shows "unat (rd_pos r + n) = unat (rd_pos r) + unat n"
    and "unat (rd_pos r) + unat n \<le> length (rd_data r)"
    and "bytes_at (rd_data r) (rd_pos r) n
           = Inr (take (unat n) (drop (unat (rd_pos r)) (rd_data r)))"
    and "length (take (unat n) (drop (unat (rd_pos r)) (rd_data r))) = unat n"
    and "reader_inv (r\<lparr>rd_pos := rd_pos r + n\<rparr>)"
proof -
  have len: "length (rd_data r) < 2 ^ 64"
    using inv by (simp add: reader_inv_def)
  have "unat n \<le> length (rd_data r) - unat (rd_pos r)"
    using n unat_reader_remaining [OF inv] by (simp add: word_le_nat_alt)
  with unat_reader_pos [OF inv]
  show le: "unat (rd_pos r) + unat n \<le> length (rd_data r)"
    by linarith
  with len have "unat (rd_pos r) + unat n < 2 ^ 64"
    by linarith
  then show u: "unat (rd_pos r + n) = unat (rd_pos r) + unat n"
    by (simp add: unat_word_ariths)
  from le show "bytes_at (rd_data r) (rd_pos r) n
           = Inr (take (unat n) (drop (unat (rd_pos r)) (rd_data r)))"
    by (simp add: bytes_at_def)
  from le show "length (take (unat n) (drop (unat (rd_pos r)) (rd_data r))) = unat n"
    by simp
  show "reader_inv (r\<lparr>rd_pos := rd_pos r + n\<rparr>)"
    using len le u unat_reader_size [OF inv]
    by (simp add: reader_inv_def word_le_nat_alt BufferReader_size_def)
qed

lemma reader_inv_new: "length d < 2 ^ 64 \<Longrightarrow> reader_inv (BufferReader_new d)"
  by (simp add: reader_inv_def BufferReader_new_def)


lemma no_nul_window:
  "(0 \<notin> set (take n (drop p d))) \<longleftrightarrow> (\<forall>i. p \<le> i \<and> i < p + n \<and> i < length d \<longrightarrow> d ! i \<noteq> (0 :: byte))"
proof
  assume L: "0 \<notin> set (take n (drop p d))"
  show "\<forall>i. p \<le> i \<and> i < p + n \<and> i < length d \<longrightarrow> d ! i \<noteq> 0"
  proof (intro allI impI)
    fix i assume i: "p \<le> i \<and> i < p + n \<and> i < length d"
    then have "i - p < length (take n (drop p d))"
      by auto
    then have "take n (drop p d) ! (i - p) \<in> set (take n (drop p d))"
      by (rule nth_mem)
    moreover have "take n (drop p d) ! (i - p) = d ! i"
      using i by auto
    ultimately show "d ! i \<noteq> 0"
      using L by metis
  qed
next
  assume R: "\<forall>i. p \<le> i \<and> i < p + n \<and> i < length d \<longrightarrow> d ! i \<noteq> 0"
  show "0 \<notin> set (take n (drop p d))"
  proof
    assume "0 \<in> set (take n (drop p d))"
    then obtain j where j: "j < length (take n (drop p d))" and z: "take n (drop p d) ! j = 0"
      by (auto simp add: in_set_conv_nth)
    from j have "p \<le> p + j \<and> p + j < p + n \<and> p + j < length d"
      by auto
    moreover from j have "p \<le> length d"
      by auto
    with j z have "d ! (p + j) = 0"
      by (simp add: nth_drop)
    ultimately show False
      using R by blast
  qed
qed

lemma no_nul_suffix:
  "(0 \<notin> set (drop p d)) \<longleftrightarrow> (\<forall>i. p \<le> i \<and> i < length d \<longrightarrow> d ! i \<noteq> (0 :: byte))"
  using no_nul_window [of "length d" p d] by auto

lemma readNullTerminatedString_none:
  assumes inv: "reader_inv r" and nz: "0 \<notin> set (drop (unat (rd_pos r)) (rd_data r))"
  shows "BufferReader_readNullTerminatedString r = Inr (None, r)"
proof -
  let ?sz = "BufferReader_size r"
  let ?q = "scan_nul (rd_data r) ?sz (rd_pos r)"
  have le: "rd_pos r \<le> ?sz"
    using inv by (simp add: reader_inv_def)
  note P = scan_nul_props [OF le, of "rd_data r"]
  have "\<not> ?q < ?sz"
  proof
    assume lt: "?q < ?sz"
    with P have "rd_data r ! unat ?q = 0"
      by blast
    moreover have "unat (rd_pos r) \<le> unat ?q" "unat ?q < length (rd_data r)"
      using P lt unat_reader_size [OF inv] by (simp_all add: word_le_nat_alt word_less_nat_alt)
    ultimately show False
      using nz unfolding no_nul_suffix by blast
  qed
  then have "?sz \<le> ?q"
    by simp
  then show ?thesis
    by (simp add: BufferReader_readNullTerminatedString_def Let_def)
qed

lemma readNullTerminatedString_some:
  assumes inv: "reader_inv r"
    and z: "unat (rd_pos r) \<le> z" "z < length (rd_data r)" "rd_data r ! z = 0"
    and nz: "0 \<notin> set (take (z - unat (rd_pos r)) (drop (unat (rd_pos r)) (rd_data r)))"
  shows "BufferReader_readNullTerminatedString r =
           Inr (Some (take (z - unat (rd_pos r)) (drop (unat (rd_pos r)) (rd_data r))),
                r\<lparr>rd_pos := of_nat z + 1\<rparr>)"
    and "unat (of_nat z + 1 :: usize) = z + 1"
proof -
  let ?sz = "BufferReader_size r"
  let ?d = "rd_data r"
  let ?q = "scan_nul ?d ?sz (rd_pos r)"
  have le: "rd_pos r \<le> ?sz"
    using inv by (simp add: reader_inv_def)
  have len: "length ?d < 2 ^ 64"
    using inv by (simp add: reader_inv_def)
  have usz: "unat ?sz = length ?d"
    by (rule unat_reader_size [OF inv])
  note P = scan_nul_props [OF le, of ?d]
  have first: "\<forall>i. unat (rd_pos r) \<le> i \<and> i < z \<longrightarrow> ?d ! i \<noteq> 0"
    using nz z unfolding no_nul_window by auto
  have qz: "unat ?q \<le> z"
  proof (rule ccontr)
    assume "\<not> unat ?q \<le> z"
    then have "unat (rd_pos r) \<le> z \<and> z < unat ?q"
      using z by simp
    with P have "?d ! z \<noteq> 0"
      by blast
    with z show False
      by simp
  qed
  then have lt: "?q < ?sz"
    using z usz by (simp add: word_less_nat_alt)
  with P have "?d ! unat ?q = 0"
    by blast
  moreover have "unat (rd_pos r) \<le> unat ?q"
    using P by (simp add: word_le_nat_alt)
  ultimately have "\<not> unat ?q < z"
    using first by blast
  with qz have uq: "unat ?q = z"
    by simp
  have "word_of_nat (unat ?q) = ?q"
    by simp
  then have q: "?q = of_nat z"
    unfolding uq by simp
  have pq: "rd_pos r \<le> ?q"
    using P by simp
  have usub: "unat (?q - rd_pos r) = z - unat (rd_pos r)"
    using unat_sub [OF pq] uq by simp
  have b: "bytes_at ?d (rd_pos r) (?q - rd_pos r) =
             Inr (take (z - unat (rd_pos r)) (drop (unat (rd_pos r)) ?d))"
    using z by (simp add: bytes_at_def usub)
  from lt have "\<not> ?sz \<le> ?q"
    by simp
  then show "BufferReader_readNullTerminatedString r =
           Inr (Some (take (z - unat (rd_pos r)) (drop (unat (rd_pos r)) (rd_data r))),
                r\<lparr>rd_pos := of_nat z + 1\<rparr>)"
    by (simp add: BufferReader_readNullTerminatedString_def Let_def b q [symmetric])
  have "unat (?q + 1) = Suc (unat ?q)"
    by (rule unat_succ_less [OF lt])
  then show "unat (of_nat z + 1 :: usize) = z + 1"
    using uq by (simp add: q)
qed


lemma readNullTerminatedString_max_lenient:
  assumes inv: "reader_inv r"
    and nowrap: "unat (rd_pos r) + unat maxLength < 2 ^ 64"
    and nz: "0 \<notin> set (take (unat maxLength) (drop (unat (rd_pos r)) (rd_data r)))"
  defines "k \<equiv> min (unat maxLength) (length (rd_data r) - unat (rd_pos r))"
  shows "BufferReader_readNullTerminatedString_max r maxLength =
           Inr (Some (take k (drop (unat (rd_pos r)) (rd_data r))),
                r\<lparr>rd_pos := rd_pos r + of_nat k
                      + (if unat (rd_pos r) + k < length (rd_data r)
                            \<and> rd_data r ! (unat (rd_pos r) + k) = 0 then 1 else 0)\<rparr>)"
    and "length (take k (drop (unat (rd_pos r)) (rd_data r))) = k"
    and "unat (rd_pos r + of_nat k :: usize) = unat (rd_pos r) + k"
proof -
  let ?sz = "BufferReader_size r"
  let ?d = "rd_data r"
  let ?p = "rd_pos r"
  let ?lim = "min (?p + maxLength) ?sz"
  let ?q = "scan_nul ?d ?lim ?p"
  have le: "?p \<le> ?sz"
    using inv by (simp add: reader_inv_def)
  have usz: "unat ?sz = length ?d"
    by (rule unat_reader_size [OF inv])
  have upl: "unat ?p \<le> length ?d"
    by (rule unat_reader_pos [OF inv])
  have uadd: "unat (?p + maxLength) = unat ?p + unat maxLength"
    using nowrap by (simp add: unat_word_ariths)
  have ulim: "unat ?lim = min (unat ?p + unat maxLength) (length ?d)"
    by (simp add: min_def word_le_nat_alt uadd usz)
  have plim: "?p \<le> ?lim"
    using upl by (simp add: word_le_nat_alt ulim)
  note P = scan_nul_props [OF plim, of ?d]
  have "\<not> ?q < ?lim"
  proof
    assume lt: "?q < ?lim"
    with P have "?d ! unat ?q = 0"
      by blast
    moreover have "unat ?p \<le> unat ?q" "unat ?q < unat ?p + unat maxLength" "unat ?q < length ?d"
      using P lt ulim by (simp_all add: word_le_nat_alt word_less_nat_alt)
    ultimately show False
      using nz unfolding no_nul_window by blast
  qed
  moreover have "?q \<le> ?lim"
    using P by blast
  ultimately have q: "?q = ?lim"
    by (rule_tac order.antisym) (simp_all only: not_less)
  have ksum: "unat ?p + k = unat ?lim"
    using upl unfolding ulim k_def by arith
  have klt: "k < 2 ^ 64"
    using ksum unat_lt_usize [of ?lim] by simp
  have uk: "unat (of_nat k :: usize) = k"
    using klt by (simp add: unat_of_nat)
  show upk: "unat (?p + of_nat k :: usize) = unat ?p + k"
    using ksum unat_lt_usize [of ?lim] by (simp add: unat_word_ariths uk)
  have limeq: "?lim = ?p + of_nat k"
    by (rule word_unat_eq_iff [THEN iffD2]) (simp add: upk ksum)
  have usub: "unat (?lim - ?p) = k"
    using unat_sub [OF plim] ksum by simp
  have b: "bytes_at ?d ?p (?lim - ?p) = Inr (take k (drop (unat ?p) ?d))"
    using ksum ulim by (simp add: bytes_at_def usub)
  have c: "(?lim < ?sz \<and> ?d ! unat ?lim = 0)
           \<longleftrightarrow> (unat ?p + k < length ?d \<and> ?d ! (unat ?p + k) = 0)"
    by (simp add: word_less_nat_alt usz ksum)
  show "BufferReader_readNullTerminatedString_max r maxLength =
           Inr (Some (take k (drop (unat (rd_pos r)) (rd_data r))),
                r\<lparr>rd_pos := rd_pos r + of_nat k
                      + (if unat (rd_pos r) + k < length (rd_data r)
                            \<and> rd_data r ! (unat (rd_pos r) + k) = 0 then 1 else 0)\<rparr>)"
    unfolding BufferReader_readNullTerminatedString_max_def Let_def q b
    using c by (simp add: limeq [symmetric])
  show "length (take k (drop (unat (rd_pos r)) (rd_data r))) = k"
    unfolding k_def by simp
qed

lemma reader_remaining_advance:
  "BufferReader_remaining (r\<lparr>rd_pos := rd_pos r + n\<rparr>) = BufferReader_remaining r - n"
  by (simp add: BufferReader_remaining_def BufferReader_size_def)

lemma readLengthPrefixedString_short:
  assumes inv: "reader_inv r"
    and four: "4 \<le> BufferReader_remaining r"
    and long: "ucast (u32_from_bytes native (take 4 (drop (unat (rd_pos r)) (rd_data r))))
                 > BufferReader_remaining r - 4"
  shows "BufferReader_readLengthPrefixedString native r = Inr (None, r\<lparr>rd_pos := rd_pos r + 4\<rparr>)"
    and "unat (rd_pos r + 4) = unat (rd_pos r) + 4"
proof -
  note adv = reader_advance [OF inv four]
  from four have nl: "\<not> BufferReader_remaining r < 4"
    by simp
  have rd: "BufferReader_read_u32 native r =
          Inr (Some (u32_from_bytes native (take 4 (drop (unat (rd_pos r)) (rd_data r)))),
               r\<lparr>rd_pos := rd_pos r + 4\<rparr>)"
    using nl adv(3) by (simp add: BufferReader_read_u32_def BufferReader_read_def)
  show "BufferReader_readLengthPrefixedString native r = Inr (None, r\<lparr>rd_pos := rd_pos r + 4\<rparr>)"
    using long
    by (simp add: BufferReader_readLengthPrefixedString_def rd BufferReader_readString_def
        reader_remaining_advance)
  show "unat (rd_pos r + 4) = unat (rd_pos r) + 4"
    using adv(1) by simp
qed

section \<open>BufferWriter: appending\<close>

lemma unat_of_nat_usize:
  "n < 2 ^ 64 \<Longrightarrow> unat (of_nat n :: usize) = n"
  by (simp add: unat_of_nat)

lemma ensureCapacity_room:
  assumes cap: "length (m_data (wr_buffer w)) + length (m_spare (wr_buffer w)) < 2 ^ 64"
    and need: "length (m_data (wr_buffer w)) \<le> unat minCapacity"
  shows "\<exists>sp. BufferWriter_ensureCapacity junk w minCapacity
                = w\<lparr>wr_buffer := (wr_buffer w)\<lparr>m_spare := sp\<rparr>\<rparr>
              \<and> unat minCapacity \<le> length (m_data (wr_buffer w)) + length sp
              \<and> length (m_data (wr_buffer w)) + length sp < 2 ^ 64"
proof -
  let ?b = "wr_buffer w"
  let ?c = "Buffer_capacity ?b"
  have uc: "unat ?c = length (m_data ?b) + length (m_spare ?b)"
    unfolding Buffer_capacity_def by (rule unat_of_nat_usize [OF cap])
  show ?thesis
  proof (cases "?c < minCapacity")
    case True
    let ?n = "max minCapacity (?c * 2)"
    have ge: "minCapacity \<le> ?n"
      by simp
    with True have lt: "?c < ?n"
      by (rule less_le_trans)
    have e: "BufferWriter_ensureCapacity junk w minCapacity
              = w\<lparr>wr_buffer := ?b\<lparr>m_spare := replicate (unat ?n - length (m_data ?b)) junk\<rparr>\<rparr>"
      using True lt by (simp add: BufferWriter_ensureCapacity_def Buffer_reserve_def)
    have u1: "unat minCapacity \<le> unat ?n"
      using ge by (simp only: word_le_nat_alt)
    have u2: "unat ?n < 2 ^ 64"
      using unat_lt_usize [of ?n] by simp
    from need u1 have "length (m_data ?b) \<le> unat ?n"
      by linarith
    with e u1 u2 show ?thesis
      by (intro exI [of _ "replicate (unat ?n - length (m_data ?b)) junk"]) simp
  next
    case False
    then have "unat minCapacity \<le> length (m_data ?b) + length (m_spare ?b)"
      using uc by (simp add: word_less_nat_alt)
    with False cap show ?thesis
      by (intro exI [of _ "m_spare ?b"]) (simp add: BufferWriter_ensureCapacity_def)
  qed
qed

lemma write_at_end_zeroes:
  assumes w: "writer_at_end w"
    and fit: "length (m_data (wr_buffer w)) + length src < 2 ^ 64"
  shows "\<exists>w'. BufferWriter_write junk w src = Inr w'
            \<and> m_data (wr_buffer w') = m_data (wr_buffer w) @ replicate (length src) 0
            \<and> wr_owned w' = wr_owned w
            \<and> writer_at_end w'"
proof -
  let ?b = "wr_buffer w"
  let ?d = "m_data ?b"
  let ?n = "length src"
  let ?sz = "of_nat ?n :: usize"
  have pos: "wr_pos w = of_nat (length ?d)"
    using w by (simp add: writer_at_end_def Buffer_size_def)
  have cap: "length ?d + length (m_spare ?b) < 2 ^ 64"
    using w by (simp add: writer_at_end_def)
  have ld: "length ?d < 2 ^ 64" and ln: "?n < 2 ^ 64"
    using fit by simp_all
  have upos: "unat (wr_pos w) = length ?d"
    unfolding pos by (rule unat_of_nat_usize [OF ld])
  have usz: "unat ?sz = ?n"
    by (rule unat_of_nat_usize [OF ln])
  have uend: "unat (wr_pos w + ?sz) = length ?d + ?n"
    using fit by (simp add: unat_word_ariths upos usz)
  have need: "length ?d \<le> unat (wr_pos w + ?sz)"
    using uend by simp
  from ensureCapacity_room [OF cap need, of junk]
  obtain sp where e: "BufferWriter_ensureCapacity junk w (wr_pos w + ?sz)
                = w\<lparr>wr_buffer := ?b\<lparr>m_spare := sp\<rparr>\<rparr>"
    and room: "unat (wr_pos w + ?sz) \<le> length ?d + length sp"
    and cap': "length ?d + length sp < 2 ^ 64"
    by blast
  from room uend have nsp: "?n \<le> length sp"
    by simp
  have st: "Buffer_store (?b\<lparr>m_spare := sp\<rparr>) (wr_pos w) src
              = Inr (?b\<lparr>m_spare := src @ drop ?n sp\<rparr>)"
    using nsp by (simp add: Buffer_store_def Let_def upos)
  let ?w2 = "w\<lparr>wr_buffer := ?b\<lparr>m_spare := src @ drop ?n sp\<rparr>, wr_pos := wr_pos w + ?sz\<rparr>"
  have wr: "BufferWriter_write junk w src = Inr (BufferWriter_updateSize ?w2)"
    by (simp add: BufferWriter_write_def Let_def e st)
  have gt: "wr_pos w + ?sz > Buffer_size (?b\<lparr>m_spare := src @ drop ?n sp\<rparr>) \<longleftrightarrow> 0 < ?n"
    using ld by (simp add: Buffer_size_def word_less_nat_alt uend unat_of_nat_usize)
  show ?thesis
  proof (cases "0 < ?n")
    case True
    have up: "BufferWriter_updateSize ?w2
          = ?w2\<lparr>wr_buffer := \<lparr>m_data = ?d @ replicate ?n 0, m_spare = drop ?n sp\<rparr>\<rparr>"
      using True gt nsp by (simp add: BufferWriter_updateSize_def Buffer_resize_def Let_def uend)
    have "writer_at_end (?w2\<lparr>wr_buffer := \<lparr>m_data = ?d @ replicate ?n 0, m_spare = drop ?n sp\<rparr>\<rparr>)"
      using cap' nsp by (simp add: writer_at_end_def Buffer_size_def pos)
    then show ?thesis
      unfolding wr up by simp
  next
    case False
    then have n0: "src = []"
      by simp
    have up: "BufferWriter_updateSize ?w2 = ?w2"
      using False gt by (simp add: BufferWriter_updateSize_def)
    have "writer_at_end ?w2"
      using cap' n0 by (simp add: writer_at_end_def Buffer_size_def pos)
    then show ?thesis
      unfolding wr up using n0 by simp
  qed
qed


lemma length_u32_to_bytes: "length (u32_to_bytes native v) = 4"
  by (cases native) (simp_all add: u32_to_bytes_def u32_le_bytes_def)

lemma replicate4: "replicate 4 x = [x, x, x, x]"
  by (simp add: eval_nat_numeral)

lemma u32_from_zero_bytes: "u32_from_bytes native [0, 0, 0, 0] = 0"
  by (cases native) (simp_all add: u32_from_bytes_def u32_of_le_bytes_def)

lemma u32_from_zero_replicate: "u32_from_bytes native (replicate 4 0) = 0"
  by (simp only: replicate4 u32_from_zero_bytes)

lemma fromLittleEndian_zero: "fromLittleEndian native 0 = 0"
  by (simp add: fromLittleEndian_def toLittleEndian_def byteSwap_def u32_le_bytes_def
      u32_of_le_bytes_def)

lemma writer_new_at_end: "writer_at_end BufferWriter_new"
  by (simp add: writer_at_end_def BufferWriter_new_def Buffer_empty_def Buffer_size_def)

lemma writes_zeroed:
  assumes len: "length s < 2 ^ 32"
  shows "\<exists>w1 w2. BufferWriter_writeU32 native junk BufferWriter_new v = Inr w1
           \<and> BufferWriter_writeLengthPrefixedString native junk w1 s = Inr w2
           \<and> Buffer_span (fst (BufferWriter_toBuffer w2)) = replicate (8 + length s) 0"
proof -
  from write_at_end_zeroes [OF writer_new_at_end, of "u32_to_bytes native (toLittleEndian native v)" junk]
  obtain w1 where w1: "BufferWriter_write junk BufferWriter_new
                         (u32_to_bytes native (toLittleEndian native v)) = Inr w1"
    and d1: "m_data (wr_buffer w1) = replicate 4 0"
    and o1: "wr_owned w1" and e1: "writer_at_end w1"
    by (auto simp add: length_u32_to_bytes BufferWriter_new_def Buffer_empty_def)
  let ?len = "ucast (of_nat (length s) :: usize) :: u32"
  from write_at_end_zeroes [OF e1, of "u32_to_bytes native ?len" junk]
  obtain w2 where w2: "BufferWriter_write junk w1 (u32_to_bytes native ?len) = Inr w2"
    and d2: "m_data (wr_buffer w2) = replicate 8 0"
    and o2: "wr_owned w2" and e2: "writer_at_end w2"
    using o1 by (auto simp add: length_u32_to_bytes d1 replicate_add [symmetric])
  have "length (m_data (wr_buffer w2)) + length s < 2 ^ 64"
    using len by (simp add: d2)
  from write_at_end_zeroes [OF e2 this, of junk]
  obtain w3 where w3: "BufferWriter_write junk w2 s = Inr w3"
    and d3: "m_data (wr_buffer w3) = replicate (8 + length s) 0"
    and o3: "wr_owned w3"
    using o2 by (auto simp add: d2 replicate_add [symmetric])
  have a: "BufferWriter_writeU32 native junk BufferWriter_new v = Inr w1"
    by (simp add: BufferWriter_writeU32_def BufferWriter_writeLE_u32_def
        BufferWriter_write_u32_def w1)
  have b: "BufferWriter_writeLengthPrefixedString native junk w1 s = Inr w3"
    by (simp add: BufferWriter_writeLengthPrefixedString_def BufferWriter_write_u32_def w2 w3)
  have c: "Buffer_span (fst (BufferWriter_toBuffer w3)) = replicate (8 + length s) 0"
    using o3 by (simp add: BufferWriter_toBuffer_def Buffer_span_def d3)
  from a b c show ?thesis
    by blast
qed

lemma read_zeroed:
  assumes len: "length s < 2 ^ 32"
  defines "r \<equiv> BufferReader_new (replicate (8 + length s) 0)"
  shows "BufferReader_readU32 native r = Inr (Some 0, r\<lparr>rd_pos := 4\<rparr>)"
    and "BufferReader_readLengthPrefixedString native (r\<lparr>rd_pos := 4\<rparr>)
           = Inr (Some [], r\<lparr>rd_pos := 8\<rparr>)"
    and "BufferReader_eof (r\<lparr>rd_pos := 8\<rparr>) \<longleftrightarrow> s = []"
proof -
  let ?n = "length s"
  let ?d = "replicate (8 + ?n) (0 :: byte)"
  have l64: "8 + ?n < 2 ^ 64"
    using len by simp
  have usz: "unat (of_nat (8 + ?n) :: usize) = 8 + ?n"
    by (rule unat_of_nat_usize [OF l64])
  have i0: "reader_inv r"
    unfolding r_def using l64 by (simp add: reader_inv_def BufferReader_new_def BufferReader_size_def)
  have i4: "reader_inv (r\<lparr>rd_pos := 4\<rparr>)"
    unfolding r_def using l64 usz
    by (simp add: reader_inv_def BufferReader_new_def BufferReader_size_def word_le_nat_alt)
  have r0: "4 \<le> BufferReader_remaining r"
    unfolding r_def using usz
    by (simp add: BufferReader_remaining_def BufferReader_new_def BufferReader_size_def
        word_le_nat_alt)
  have rem4: "unat (BufferReader_remaining (r\<lparr>rd_pos := 4\<rparr>)) = 4 + ?n"
    using unat_reader_remaining [OF i4] by (simp add: r_def BufferReader_new_def)
  then have r4: "4 \<le> BufferReader_remaining (r\<lparr>rd_pos := 4\<rparr>)"
    by (simp add: word_le_nat_alt)
  have t0: "take 4 (drop (unat (rd_pos r)) (rd_data r)) = [0, 0, 0, 0]"
    by (simp add: r_def BufferReader_new_def replicate4 [symmetric])
  have t4: "take 4 (drop 4 (rd_data r)) = [0, 0, 0, 0]"
    by (simp add: r_def BufferReader_new_def replicate4 [symmetric])
  have rd0: "BufferReader_read_u32 native r = Inr (Some 0, r\<lparr>rd_pos := 4\<rparr>)"
    using r0 reader_advance(3) [OF i0 r0]
    by (simp add: BufferReader_read_u32_def BufferReader_read_def u32_from_zero_replicate
        r_def BufferReader_new_def)
  show "BufferReader_readU32 native r = Inr (Some 0, r\<lparr>rd_pos := 4\<rparr>)"
    by (simp add: BufferReader_readU32_def BufferReader_readLE_u32_def rd0 fromLittleEndian_zero)
  have rd4: "BufferReader_read_u32 native (r\<lparr>rd_pos := 4\<rparr>) = Inr (Some 0, r\<lparr>rd_pos := 8\<rparr>)"
    using r4 reader_advance(3) [OF i4 r4]
    by (simp add: BufferReader_read_u32_def BufferReader_read_def t4 u32_from_zero_bytes)
  have b8: "bytes_at (rd_data r) 8 0 = Inr []"
    by (simp add: bytes_at_def r_def BufferReader_new_def)
  show "BufferReader_readLengthPrefixedString native (r\<lparr>rd_pos := 4\<rparr>)
           = Inr (Some [], r\<lparr>rd_pos := 8\<rparr>)"
    by (simp add: BufferReader_readLengthPrefixedString_def rd4 BufferReader_readString_def b8)
  show "BufferReader_eof (r\<lparr>rd_pos := 8\<rparr>) \<longleftrightarrow> s = []"
    using usz by (simp add: BufferReader_eof_def BufferReader_size_def r_def BufferReader_new_def
        word_le_nat_alt)
qed

lemma write_then_read_zeroed:
  assumes "length s < 2 ^ 32"
  shows "write_then_read native junk v s = Inr (Some 0, Some [], s = [])"
proof -
  from writes_zeroed [OF assms, of native junk v]
  obtain w1 w2 where a: "BufferWriter_writeU32 native junk BufferWriter_new v = Inr w1"
    and b: "BufferWriter_writeLengthPrefixedString native junk w1 s = Inr w2"
    and c: "Buffer_span (fst (BufferWriter_toBuffer w2)) = replicate (8 + length s) 0"
    by blast
  note rd = read_zeroed [OF assms]
  show ?thesis
    by (simp add: write_then_read_def a b c Let_def rd)
qed

section \<open>PoolAllocator: the free list\<close>

lemma free_path_update:
  "a \<notin> set as \<Longrightarrow> free_path (mem(a := v)) head as = free_path mem head as"
  by (induction as arbitrary: head) auto

lemma free_path_null: "free_path mem nullptr as \<longleftrightarrow> as = []"
  by (cases as) auto

lemma init_free_list_path:
  assumes "\<forall>i \<in> set is. unat (of_nat i * bs) = i * unat bs
                         \<and> i * unat bs + unat sizeof_FreeBlock \<le> rsz"
    and "free_path mem fl xs"
    and "\<forall>i \<in> set is. base + i * unat bs \<notin> set xs"
    and "distinct (map (\<lambda>i. base + i * unat bs) is)"
  shows "\<exists>fl' mem'. init_free_list base bs rsz is (fl, mem) = Inr (fl', mem')
           \<and> free_path mem' fl' (rev (map (\<lambda>i. base + i * unat bs) is) @ xs)"
  using assms
proof (induction "is" arbitrary: fl mem xs)
  case Nil
  then show ?case
    by simp
next
  case (Cons i "is")
  let ?a = "base + i * unat bs"
  have off: "unat (of_nat i * bs) = i * unat bs" and fits: "i * unat bs + unat sizeof_FreeBlock \<le> rsz"
    using Cons.prems(1) by simp_all
  have fresh: "?a \<notin> set xs"
    using Cons.prems(3) by simp
  have step: "init_free_list base bs rsz (i # is) (fl, mem)
                = init_free_list base bs rsz is (Some ?a, mem(?a := fl))"
    using fits by (simp add: off Let_def)
  have p: "free_path (mem(?a := fl)) (Some ?a) (?a # xs)"
    using Cons.prems(2) fresh by (simp add: free_path_update)
  have a1: "\<forall>j \<in> set is. unat (of_nat j * bs) = j * unat bs
                         \<and> j * unat bs + unat sizeof_FreeBlock \<le> rsz"
    using Cons.prems(1) by simp
  have a3: "\<forall>j \<in> set is. base + j * unat bs \<notin> set (?a # xs)"
    using Cons.prems(3,4) by auto
  have a4: "distinct (map (\<lambda>i. base + i * unat bs) is)"
    using Cons.prems(4) by simp
  from Cons.IH [OF a1 p a3 a4] show ?case
    unfolding step by (simp add: fun_upd_def)
qed

lemma unat_mult_usize:
  "unat a * unat b < 2 ^ 64 \<Longrightarrow> unat (a * b :: usize) = unat a * unat b"
  by (simp add: unat_word_ariths)

lemma PoolAllocator_new_inv:
  assumes fit: "unat (max blockSize sizeof_FreeBlock) * unat blockCount < 2 ^ 64"
  shows "\<exists>p0. PoolAllocator_new (Some base) mem blockSize blockCount = Inr p0 \<and> pool_inv p0 {}"
proof -
  let ?bs = "max blockSize sizeof_FreeBlock"
  let ?n = "unat blockCount"
  let ?f = "\<lambda>i. base + i * unat ?bs"
  have bs8: "8 \<le> unat ?bs"
  proof -
    have "sizeof_FreeBlock \<le> ?bs"
      by simp
    then show ?thesis
      by (simp add: word_le_nat_alt sizeof_FreeBlock_def)
  qed
  have rs: "unat (?bs * blockCount) = unat ?bs * ?n"
    by (rule unat_mult_usize [OF fit])
  have idx: "unat (of_nat i * ?bs) = i * unat ?bs \<and> i * unat ?bs + unat sizeof_FreeBlock \<le> unat ?bs * ?n"
    if "i < ?n" for i
  proof -
    have le: "i * unat ?bs + unat ?bs \<le> unat ?bs * ?n"
    proof -
      from that have "Suc i \<le> ?n"
        by simp
      then have "Suc i * unat ?bs \<le> ?n * unat ?bs"
        by (rule mult_le_mono1)
      then show ?thesis
        by (simp add: mult.commute)
    qed
    have i64: "i < 2 ^ 64"
      using that unat_lt_usize [of blockCount] by simp
    have ui: "unat (of_nat i :: usize) = i"
      by (rule unat_of_nat_usize [OF i64])
    have "unat (of_nat i :: usize) * unat ?bs < 2 ^ 64"
      unfolding ui using le fit by linarith
    then have "unat (of_nat i * ?bs) = i * unat ?bs"
      using unat_mult_usize [of "of_nat i" ?bs] ui by simp
    moreover have "i * unat ?bs + unat sizeof_FreeBlock \<le> unat ?bs * ?n"
      using le bs8 by (simp add: sizeof_FreeBlock_def)
    ultimately show ?thesis
      by simp
  qed
  have inj: "inj ?f"
    using bs8 by (auto simp add: inj_on_def)
  have a1: "\<forall>i \<in> set [0..<?n]. unat (of_nat i * ?bs) = i * unat ?bs
               \<and> i * unat ?bs + unat sizeof_FreeBlock \<le> unat (?bs * blockCount)"
    using idx by (simp add: rs)
  have a4: "distinct (map ?f [0..<?n])"
    using inj by (simp add: distinct_map inj_on_def)
  from init_free_list_path [OF a1, of mem nullptr "[]" base] a4
  obtain fl' mem' where i: "init_free_list base ?bs (unat (?bs * blockCount)) [0..<?n] (nullptr, mem)
                              = Inr (fl', mem')"
    and path: "free_path mem' fl' (rev (map ?f [0..<?n]))"
    by auto
  let ?p0 = "\<lparr>pool_buffer = base, pool_freeList = fl', pool_blockSize = ?bs,
             pool_blockCount = blockCount, pool_freeCount = blockCount, pool_next = mem'\<rparr>"
  have new: "PoolAllocator_new (Some base) mem blockSize blockCount = Inr ?p0"
    by (simp add: PoolAllocator_new_def Let_def i)
  have "pool_inv ?p0 {}"
    unfolding pool_inv_def
  proof (intro exI [of _ "rev (map ?f [0..<?n])"] conjI)
    show "free_path (pool_next ?p0) (pool_freeList ?p0) (rev (map ?f [0..<?n]))"
      using path by simp
    show "distinct (rev (map ?f [0..<?n]))"
      using a4 by simp
    show "set (rev (map ?f [0..<?n])) \<inter> {} = {}"
      by simp
    show "set (rev (map ?f [0..<?n])) \<union> {} = pool_blocks ?p0"
      by (simp add: pool_blocks_def pool_block_addr_def atLeast0LessThan)
    show "length (rev (map ?f [0..<?n])) = unat (pool_freeCount ?p0)"
      by simp
    show "0 < unat (pool_blockSize ?p0)"
      using bs8 by simp
    show "unat (pool_blockSize ?p0) * unat (pool_blockCount ?p0) < 2 ^ 64"
      using fit by simp
  qed
  with new show ?thesis
    by blast
qed


lemma pool_inv_counts:
  assumes "pool_inv p live"
  shows "unat (pool_freeCount p) + card live = unat (pool_blockCount p)"
    and "pool_freeCount p \<le> pool_blockCount p"
    and "pool_freeList p = nullptr \<longleftrightarrow> pool_freeCount p = 0"
proof -
  from assms obtain fl where path: "free_path (pool_next p) (pool_freeList p) fl"
    and d: "distinct fl" and disj: "set fl \<inter> live = {}"
    and un: "set fl \<union> live = pool_blocks p"
    and len: "length fl = unat (pool_freeCount p)"
    and bs: "0 < unat (pool_blockSize p)"
    by (auto simp add: pool_inv_def)
  have "inj (pool_block_addr p)"
    using bs by (auto simp add: inj_on_def pool_block_addr_def)
  then have "card (pool_blocks p) = unat (pool_blockCount p)"
    unfolding pool_blocks_def by (simp add: card_image inj_on_def)
  moreover have fin: "finite live"
    using un by (metis finite_Un finite_imageI finite_lessThan pool_blocks_def)
  moreover have "card (set fl \<union> live) = card (set fl) + card live"
    using disj fin by (simp add: card_Un_disjoint)
  moreover have "card (set fl) = length fl"
    using d by (rule distinct_card)
  ultimately show eq: "unat (pool_freeCount p) + card live = unat (pool_blockCount p)"
    using un len by simp
  then show "pool_freeCount p \<le> pool_blockCount p"
    by (simp add: word_le_nat_alt)
  have "pool_freeList p = nullptr \<longleftrightarrow> fl = []"
    using path by (cases fl) auto
  also have "\<dots> \<longleftrightarrow> unat (pool_freeCount p) = 0"
    using len by auto
  finally show "pool_freeList p = nullptr \<longleftrightarrow> pool_freeCount p = 0"
    by (simp add: unat_eq_0)
qed

lemma PoolAllocator_allocate_inv:
  assumes inv: "pool_inv p live"
  shows "case PoolAllocator_allocate p sz al of
           (None, p') \<Rightarrow> pool_inv p' live
         | (Some a, p') \<Rightarrow> pool_inv p' (insert a live)"
proof (cases "sz > pool_blockSize p \<or> pool_freeList p = nullptr")
  case True
  then show ?thesis
    using inv by (simp add: PoolAllocator_allocate_def)
next
  case False
  from inv obtain fl where path: "free_path (pool_next p) (pool_freeList p) fl"
    and d: "distinct fl" and disj: "set fl \<inter> live = {}"
    and un: "set fl \<union> live = pool_blocks p"
    and len: "length fl = unat (pool_freeCount p)"
    and bs: "0 < unat (pool_blockSize p)"
    and fit: "unat (pool_blockSize p) * unat (pool_blockCount p) < 2 ^ 64"
    by (auto simp add: pool_inv_def)
  from False path obtain a as where fl: "fl = a # as" and hd: "pool_freeList p = Some a"
    and rest: "free_path (pool_next p) (pool_next p a) as"
    by (cases fl) auto
  let ?p' = "p\<lparr>pool_freeList := pool_next p a, pool_freeCount := pool_freeCount p - 1\<rparr>"
  have res: "PoolAllocator_allocate p sz al = (Some a, ?p')"
    using False hd by (simp add: PoolAllocator_allocate_def Let_def)
  have nz: "pool_freeCount p \<noteq> 0"
    using len fl by (auto simp add: unat_eq_0 [symmetric] simp del: unat_eq_0)
  have cnt: "unat (pool_freeCount p - 1) = length as"
    using unat_minus_one [OF nz] len fl by simp
  have "pool_inv ?p' (insert a live)"
    unfolding pool_inv_def
  proof (intro exI [of _ as] conjI)
    show "free_path (pool_next ?p') (pool_freeList ?p') as"
      using rest by simp
    show "distinct as"
      using d fl by simp
    show "set as \<inter> insert a live = {}"
      using d disj fl by auto
    show "set as \<union> insert a live = pool_blocks ?p'"
      using un fl by (auto simp add: pool_blocks_def pool_block_addr_def)
    show "length as = unat (pool_freeCount ?p')"
      using cnt by simp
    show "0 < unat (pool_blockSize ?p')"
      using bs by simp
    show "unat (pool_blockSize ?p') * unat (pool_blockCount ?p') < 2 ^ 64"
      using fit by simp
  qed
  then show ?thesis
    by (simp add: res)
qed

lemma PoolAllocator_deallocate_null:
  "PoolAllocator_deallocate p nullptr sz = Inr p"
  by (simp add: PoolAllocator_deallocate_def)

lemma PoolAllocator_deallocate_inv:
  assumes inv: "pool_inv p live" and a: "a \<in> live"
  shows "\<exists>p'. PoolAllocator_deallocate p (Some a) sz = Inr p' \<and> pool_inv p' (live - {a})"
proof -
  from inv obtain fl where path: "free_path (pool_next p) (pool_freeList p) fl"
    and d: "distinct fl" and disj: "set fl \<inter> live = {}"
    and un: "set fl \<union> live = pool_blocks p"
    and len: "length fl = unat (pool_freeCount p)"
    and bs: "0 < unat (pool_blockSize p)"
    and fit: "unat (pool_blockSize p) * unat (pool_blockCount p) < 2 ^ 64"
    by (auto simp add: pool_inv_def)
  have nfl: "a \<notin> set fl"
    using a disj by auto
  from a un have "a \<in> pool_blocks p"
    by auto
  then obtain i where i: "i < unat (pool_blockCount p)"
    and ai: "a = pool_buffer p + i * unat (pool_blockSize p)"
    by (auto simp add: pool_blocks_def pool_block_addr_def)
  have "Suc i * unat (pool_blockSize p) \<le> unat (pool_blockCount p) * unat (pool_blockSize p)"
    using i by (intro mult_le_mono1) simp
  then have "i * unat (pool_blockSize p) + unat (pool_blockSize p)
               \<le> unat (pool_blockSize p) * unat (pool_blockCount p)"
    by (simp add: mult.commute)
  then have "i * unat (pool_blockSize p) < unat (pool_blockSize p) * unat (pool_blockCount p)"
    using bs by linarith
  then have range: "pool_buffer p \<le> a
      \<and> a < pool_buffer p + unat (pool_blockSize p * pool_blockCount p)"
    using ai unat_mult_usize [OF fit] by simp
  let ?p' = "p\<lparr>pool_next := (pool_next p)(a := pool_freeList p),
               pool_freeList := Some a,
               pool_freeCount := pool_freeCount p + 1\<rparr>"
  have res: "PoolAllocator_deallocate p (Some a) sz = Inr ?p'"
    using range by (simp add: PoolAllocator_deallocate_def)
  have cnts: "unat (pool_freeCount p) + card live = unat (pool_blockCount p)"
    by (rule pool_inv_counts(1) [OF inv])
  have fin: "finite live"
    using un by (metis finite_Un finite_imageI finite_lessThan pool_blocks_def)
  have "0 < card live"
    using a fin by (auto simp add: card_gt_0_iff)
  with cnts have "unat (pool_freeCount p) + 1 < 2 ^ 64"
    using unat_lt_usize [of "pool_blockCount p"] by simp
  then have cnt: "unat (pool_freeCount p + 1) = Suc (length fl)"
    using len by (simp add: unat_word_ariths)
  have "pool_inv ?p' (live - {a})"
    unfolding pool_inv_def
  proof (intro exI [of _ "a # fl"] conjI)
    show "free_path (pool_next ?p') (pool_freeList ?p') (a # fl)"
      using path nfl by (simp add: free_path_update)
    show "distinct (a # fl)"
      using d nfl by simp
    show "set (a # fl) \<inter> (live - {a}) = {}"
      using disj by auto
    show "set (a # fl) \<union> (live - {a}) = pool_blocks ?p'"
      using un a by (auto simp add: pool_blocks_def pool_block_addr_def)
    show "length (a # fl) = unat (pool_freeCount ?p')"
      using cnt by simp
    show "0 < unat (pool_blockSize ?p')"
      using bs by simp
    show "unat (pool_blockSize ?p') * unat (pool_blockCount ?p') < 2 ^ 64"
      using fit by simp
  qed
  with res show ?thesis
    by blast
qed

lemma pool_run_inv:
  assumes "pool_inv p live"
  shows "case pool_run (p, live) ops of
           Inl f \<Rightarrow> f = PreconditionViolated
         | Inr (p', live') \<Rightarrow> pool_inv p' live'"
  using assms
proof (induction ops arbitrary: p live)
  case Nil
  then show ?case
    by simp
next
  case (Cons op ops)
  show ?case
  proof (cases op)
    case (Allocate sz al)
    obtain r p' where r: "PoolAllocator_allocate p sz al = (r, p')"
      by (cases "PoolAllocator_allocate p sz al")
    from PoolAllocator_allocate_inv [OF Cons.prems, of sz al] r
    have "pool_inv p' (case r of None \<Rightarrow> live | Some a \<Rightarrow> insert a live)"
      by (cases r) simp_all
    from Cons.IH [OF this] show ?thesis
      unfolding Allocate by (cases r) (simp_all add: r)
  next
    case (Deallocate ptr sz)
    show ?thesis
    proof (cases ptr)
      case None
      from Cons.IH [OF Cons.prems] show ?thesis
        unfolding Deallocate None by (simp add: PoolAllocator_deallocate_null)
    next
      case (Some a)
      show ?thesis
      proof (cases "a \<in> live")
        case True
        from PoolAllocator_deallocate_inv [OF Cons.prems True, of sz]
        obtain p' where d: "PoolAllocator_deallocate p (Some a) sz = Inr p'"
          and i: "pool_inv p' (live - {a})"
          by blast
        from Cons.IH [OF i] show ?thesis
          unfolding Deallocate Some using True by (simp add: d)
      next
        case False
        then show ?thesis
          unfolding Deallocate Some by simp
      qed
    qed
  qed
qed

section \<open>HeapAllocator: allocation and the move of a block\<close>

lemma alignUp_block_size:
  assumes "isPowerOfTwo alignment" and "unat sz + unat alignment \<le> 2 ^ 64"
  shows "\<exists>n. alignUp sz alignment = Inr n \<and> unat sz \<le> unat n"
proof -
  from assms(1) obtain k where k: "k < LENGTH(64)" and a: "alignment = 2 ^ k"
    by (rule isPowerOfTwoE)
  have u: "unat (2 ^ k :: usize) = 2 ^ k"
    by (rule unat_exp_usize [OF k])
  have "sz \<le> (sz + 2 ^ k - 1) AND NOT (2 ^ k - 1)"
    using round_up_word_props(3) [OF k, of sz] assms(2) by (simp add: a u)
  then show ?thesis
    using assms(1) by (simp add: alignUp_def a word_le_nat_alt)
qed

lemma HeapAllocator_allocate_block:
  assumes "sz \<noteq> 0"
    and "pf = Posix \<longrightarrow> isPowerOfTwo alignment \<and> unat sz + unat alignment \<le> 2 ^ 64"
  shows "HeapAllocator_allocate pf nullptr junk h sz alignment = Inr (nullptr, h)"
    and "\<exists>len. unat sz \<le> len
           \<and> HeapAllocator_allocate pf (Some n) junk h sz alignment
               = Inr (Some n, h(n \<mapsto> replicate len junk))"
proof -
  have "\<exists>len. (case pf of Windows \<Rightarrow> Inr sz | Posix \<Rightarrow> alignUp sz alignment) = Inr len
               \<and> unat sz \<le> unat len"
  proof (cases pf)
    case Windows
    then show ?thesis
      by simp
  next
    case Posix
    with assms(2) alignUp_block_size [of alignment sz] show ?thesis
      by simp
  qed
  then obtain len where l: "(case pf of Windows \<Rightarrow> Inr sz | Posix \<Rightarrow> alignUp sz alignment) = Inr len"
    and ge: "unat sz \<le> unat len"
    by blast
  show "HeapAllocator_allocate pf nullptr junk h sz alignment = Inr (nullptr, h)"
    using assms(1) by (simp add: HeapAllocator_allocate_def l)
  have "HeapAllocator_allocate pf (Some n) junk h sz alignment
               = Inr (Some n, h(n \<mapsto> replicate (unat len) junk))"
    using assms(1) by (simp add: HeapAllocator_allocate_def l)
  with ge show "\<exists>len. unat sz \<le> len
           \<and> HeapAllocator_allocate pf (Some n) junk h sz alignment
               = Inr (Some n, h(n \<mapsto> replicate len junk))"
    by blast
qed

lemma HeapAllocator_reallocate_moves:
  assumes nz: "newSize \<noteq> 0"
    and old: "h a = Some old" "unat oldSize \<le> length old"
    and pf: "pf = Posix \<longrightarrow> isPowerOfTwo alignment \<and> unat newSize + unat alignment \<le> 2 ^ 64"
  shows "HeapAllocator_reallocate pf nullptr junk h (Some a) oldSize newSize alignment
           = Inr (nullptr, h)"
    and "n \<notin> dom h \<Longrightarrow>
         \<exists>len. unat newSize \<le> len
           \<and> HeapAllocator_reallocate pf (Some n) junk h (Some a) oldSize newSize alignment
               = Inr (Some n,
                      (h(n \<mapsto> take (unat (min oldSize newSize)) old
                                @ replicate (len - unat (min oldSize newSize)) junk))
                        (a := None))"
proof -
  note al = HeapAllocator_allocate_block [OF nz pf]
  show "HeapAllocator_reallocate pf nullptr junk h (Some a) oldSize newSize alignment
           = Inr (nullptr, h)"
    using nz by (simp add: HeapAllocator_reallocate_def al(1))
  assume fresh: "n \<notin> dom h"
  from al(2) [of n junk h] obtain len where len: "unat newSize \<le> len"
    and a2: "HeapAllocator_allocate pf (Some n) junk h newSize alignment
               = Inr (Some n, h(n \<mapsto> replicate len junk))"
    by blast
  let ?k = "unat (min oldSize newSize)"
  have na: "n \<noteq> a"
    using fresh old(1) by auto
  have k1: "?k \<le> len"
    using len by (simp add: min_def word_le_nat_alt)
  have k2: "?k \<le> length old"
    using old(2) by (simp add: min_def word_le_nat_alt)
  have cp: "heap_memcpy (h(n \<mapsto> replicate len junk)) n a (min oldSize newSize)
              = Inr (h(n \<mapsto> take ?k old @ replicate (len - ?k) junk))"
    using na old(1) k1 k2 by (simp add: heap_memcpy_def)
  have fr: "HeapAllocator_deallocate (h(n \<mapsto> take ?k old @ replicate (len - ?k) junk)) (Some a) oldSize
              = Inr ((h(n \<mapsto> take ?k old @ replicate (len - ?k) junk))(a := None))"
    using na old(1) by (auto simp add: HeapAllocator_deallocate_def)
  have "HeapAllocator_reallocate pf (Some n) junk h (Some a) oldSize newSize alignment
               = Inr (Some n, (h(n \<mapsto> take ?k old @ replicate (len - ?k) junk))(a := None))"
    using nz by (simp add: HeapAllocator_reallocate_def a2 cp fr)
  with len show "\<exists>len. unat newSize \<le> len
           \<and> HeapAllocator_reallocate pf (Some n) junk h (Some a) oldSize newSize alignment
               = Inr (Some n,
                      (h(n \<mapsto> take (unat (min oldSize newSize)) old
                                @ replicate (len - unat (min oldSize newSize)) junk))
                        (a := None))"
    by blast
qed

section \<open>ArenaAllocator: allocation without wrap-around\<close>

text \<open>
  Where \<open>alignedOffset + size\<close> stays below \<open>2^64\<close>, the comparison of the code is the
  comparison of the numbers: \<open>allocate\<close> returns null exactly when the size is 0 or the
  block does not fit.
\<close>

lemma ArenaAllocator_allocate_no_wrap:
  assumes "isPowerOfTwo alignment"
    and "alignUp (arena_offset a) alignment = Inr alignedOffset"
    and "unat alignedOffset + unat sz < 2 ^ 64"
  shows "ArenaAllocator_allocate a sz alignment =
           Inr (if sz = 0 \<or> unat alignedOffset + unat sz > unat (arena_capacity a)
                then (nullptr, a)
                else (Some (arena_buffer a + unat alignedOffset),
                      a\<lparr>arena_offset := alignedOffset + sz\<rparr>))"
proof -
  have "unat (alignedOffset + sz) = unat alignedOffset + unat sz"
    using assms(3) by (simp add: unat_word_ariths)
  then have "alignedOffset + sz > arena_capacity a
               \<longleftrightarrow> unat alignedOffset + unat sz > unat (arena_capacity a)"
    by (simp add: word_less_nat_alt)
  then show ?thesis
    using assms(2) by (simp add: ArenaAllocator_allocate_def)
qed

section \<open>Buffer: sub-views\<close>

text \<open>
  A count other than \<open>dynamic_extent\<close> that exceeds the bytes available after an
  in-range offset is never clamped: the call breaks the precondition of
  \<open>std::span::subspan\<close>.
\<close>

lemma Buffer_subspan_short_request_faults:
  assumes "offset \<le> Buffer_size b"
    and "count \<noteq> dynamic_extent"
    and "count > Buffer_size b - offset"
  shows "Buffer_subspan b offset count = Inl PreconditionViolated"
  using assms by (simp add: Buffer_subspan_def std_span_subspan_def)

section \<open>HeapAllocator: a size that wraps in alignUp\<close>

text \<open>
  Where \<open>allocate\<close> rounds the size with \<open>alignUp\<close>, a size within \<open>alignment\<close> of
  \<open>2^64\<close> rounds to 0: reallocating a live 4-byte block to \<open>2^64 - 3\<close> bytes with
  alignment 8 obtains a block of no bytes, and the copy of 4 bytes runs past it.
\<close>

lemma HeapAllocator_reallocate_wraps:
  "HeapAllocator_reallocate Posix (Some 200) 0 [100 \<mapsto> [1, 2, 3, 4]] (Some 100) 4
     0xFFFFFFFFFFFFFFFD 8
   = Inl OutOfBounds"
proof -
  have "isPowerOfTwo (2 ^ 3 :: usize)"
    by (rule isPowerOfTwo_exp) simp
  then have h: "isPowerOfTwo (8 :: usize)"
    by simp
  then have al: "alignUp 0xFFFFFFFFFFFFFFFD 8 = Inr 0"
    by (simp add: alignUp_def)
  show ?thesis
    by (simp add: HeapAllocator_reallocate_def HeapAllocator_allocate_def al heap_memcpy_def)
qed

section \<open>Properties of alignUp\<close>

text \<open>
  Claim C8, as stated, at the largest \<open>usize\<close> value and alignment 2: the rounded value
  wraps around to 0, which is not at or above the input.
\<close>

theorem alignUp_wraps_counterexample:
  "isPowerOfTwo (2 :: usize) \<and> alignUp 0xFFFFFFFFFFFFFFFF 2 = Inr 0
   \<and> \<not> ((0 :: usize) \<ge> 0xFFFFFFFFFFFFFFFF)"
proof -
  have "isPowerOfTwo (2 ^ 1 :: usize)"
    by (rule isPowerOfTwo_exp) simp
  then have p: "isPowerOfTwo (2 :: usize)"
    by simp
  then show ?thesis
    by (simp add: alignUp_def)
qed

text \<open>
  Claim C8, amended: for every \<open>usize\<close> value \<open>v\<close> and power-of-two alignment \<open>s\<close>,
  \<open>alignUp(v, s)\<close> returns a multiple of \<open>s\<close> whose distance from \<open>v\<close>, computed modulo
  \<open>2^64\<close>, is below \<open>s\<close>; and the result is at or above \<open>v\<close> exactly when
  \<open>v + s\<close> does not exceed \<open>2^64\<close>, that is, when a multiple of \<open>s\<close> at or above \<open>v\<close>
  is representable.
\<close>

theorem alignUp_properties:
  assumes "isPowerOfTwo s"
  shows "\<exists>r. alignUp v s = Inr r \<and> r mod s = 0 \<and> r - v < s
             \<and> (v \<le> r \<longleftrightarrow> unat v + unat s \<le> 2 ^ 64)"
proof -
  from assms obtain k where k: "k < LENGTH(64)" and s: "s = 2 ^ k"
    by (rule isPowerOfTwoE)
  have u: "unat (2 ^ k :: usize) = 2 ^ k"
    by (rule unat_exp_usize [OF k])
  have "alignUp v s = Inr ((v + 2 ^ k - 1) AND NOT (2 ^ k - 1))"
    using assms by (simp add: alignUp_def s)
  moreover note round_up_word_props [OF k, of v]
  ultimately show ?thesis
    by (simp add: s u)
qed

theorem alignUp_properties_witness:
  "isPowerOfTwo (8 :: usize) \<and>
   (\<exists>r. alignUp 13 8 = Inr r \<and> r mod 8 = 0 \<and> r - 13 < 8
        \<and> (13 \<le> r \<longleftrightarrow> unat (13 :: usize) + unat (8 :: usize) \<le> 2 ^ 64))"
proof -
  have "isPowerOfTwo (2 ^ 3 :: usize)"
    by (rule isPowerOfTwo_exp) simp
  then have h: "isPowerOfTwo (8 :: usize)"
    by simp
  from alignUp_properties [OF h, of 13] h show ?thesis
    by blast
qed

section \<open>Properties of ArenaAllocator\<close>

text \<open>
  Claim C6 at an arena of capacity 64 with offset 16, for size \<open>2^64 - 8\<close> and
  alignment 8: \<open>alignedOffset\<close> is 16 and \<open>alignedOffset + size\<close> exceeds the capacity,
  so the claim has \<open>allocate\<close> return null with the offset unchanged. The code forms the
  sum in \<open>usize\<close>, where it wraps around to 8, finds it within the capacity, returns
  \<open>region + 16\<close> and sets the offset to 8.
\<close>

theorem ArenaAllocator_allocate_overflow:
  "isPowerOfTwo (8 :: usize)
   \<and> alignUp 16 8 = Inr 16
   \<and> unat (16 :: usize) + unat (0xFFFFFFFFFFFFFFF8 :: usize) > unat (64 :: usize)
   \<and> ArenaAllocator_allocate
         \<lparr>arena_buffer = 4096, arena_capacity = 64, arena_offset = 16, arena_ownsBuffer = True\<rparr>
         0xFFFFFFFFFFFFFFF8 8
       = Inr (Some 4112,
              \<lparr>arena_buffer = 4096, arena_capacity = 64, arena_offset = 8,
               arena_ownsBuffer = True\<rparr>)"
proof -
  have "isPowerOfTwo (2 ^ 3 :: usize)"
    by (rule isPowerOfTwo_exp) simp
  then have h: "isPowerOfTwo (8 :: usize)"
    by simp
  then show ?thesis
    by (simp add: ArenaAllocator_allocate_def alignUp_def)
qed

section \<open>Properties of BufferReader\<close>

text \<open>
  Claim C3: for every reader within its invariant and every trivially copyable \<open>T\<close>:
  if \<open>remaining() >= sizeof(T)\<close>, \<open>read<T>()\<close> returns the value decoded from the
  \<open>sizeof(T)\<close> bytes at the current position (all of them inside the data) and
  \<open>position()\<close> grows by exactly \<open>sizeof(T)\<close>; otherwise it returns none and the
  reader is unchanged.
\<close>

theorem BufferReader_read_spec:
  assumes "reader_inv r"
  shows "(BufferReader_remaining r \<ge> sizeof_T \<longrightarrow>
            BufferReader_read sizeof_T from_bytes r =
              Inr (Some (from_bytes (take (unat sizeof_T) (drop (unat (rd_pos r)) (rd_data r)))),
                   r\<lparr>rd_pos := rd_pos r + sizeof_T\<rparr>)
            \<and> length (take (unat sizeof_T) (drop (unat (rd_pos r)) (rd_data r))) = unat sizeof_T
            \<and> unat (rd_pos r + sizeof_T) = unat (rd_pos r) + unat sizeof_T)
       \<and> (BufferReader_remaining r < sizeof_T \<longrightarrow>
            BufferReader_read sizeof_T from_bytes r = Inr (None, r))"
proof (intro conjI impI)
  assume n: "sizeof_T \<le> BufferReader_remaining r"
  note adv = reader_advance [OF assms n]
  from n have "\<not> BufferReader_remaining r < sizeof_T"
    by simp
  then show "BufferReader_read sizeof_T from_bytes r =
              Inr (Some (from_bytes (take (unat sizeof_T) (drop (unat (rd_pos r)) (rd_data r)))),
                   r\<lparr>rd_pos := rd_pos r + sizeof_T\<rparr>)"
    by (simp add: BufferReader_read_def adv(3))
  show "length (take (unat sizeof_T) (drop (unat (rd_pos r)) (rd_data r))) = unat sizeof_T"
    by (rule adv(4))
  show "unat (rd_pos r + sizeof_T) = unat (rd_pos r) + unat sizeof_T"
    by (rule adv(1))
next
  assume "BufferReader_remaining r < sizeof_T"
  then show "BufferReader_read sizeof_T from_bytes r = Inr (None, r)"
    by (simp add: BufferReader_read_def)
qed

theorem BufferReader_read_spec_witness:
  "reader_inv (BufferReader_new [0xEF, 0xBE, 0xAD, 0xDE, 7])
   \<and> BufferReader_remaining (BufferReader_new [0xEF, 0xBE, 0xAD, 0xDE, 7]) \<ge> 4
   \<and> BufferReader_read 4 (u32_from_bytes little) (BufferReader_new [0xEF, 0xBE, 0xAD, 0xDE, 7])
       = Inr (Some 0xDEADBEEF, \<lparr>rd_data = [0xEF, 0xBE, 0xAD, 0xDE, 7], rd_pos = 4\<rparr>)
   \<and> BufferReader_remaining \<lparr>rd_data = [0xEF, 0xBE, 0xAD, 0xDE, 7], rd_pos = 4\<rparr> < 4
   \<and> BufferReader_read 4 (u32_from_bytes little)
         \<lparr>rd_data = [0xEF, 0xBE, 0xAD, 0xDE, 7], rd_pos = 4\<rparr>
       = Inr (None, \<lparr>rd_data = [0xEF, 0xBE, 0xAD, 0xDE, 7], rd_pos = 4\<rparr>)"
proof -
  let ?d = "[0xEF, 0xBE, 0xAD, 0xDE, 7] :: byte list"
  have i0: "reader_inv (BufferReader_new ?d)"
    by (simp add: reader_inv_def BufferReader_new_def BufferReader_size_def)
  have i4: "reader_inv \<lparr>rd_data = ?d, rd_pos = 4\<rparr>"
    by (simp add: reader_inv_def BufferReader_size_def)
  have r0: "BufferReader_remaining (BufferReader_new ?d) \<ge> 4"
    by (simp add: BufferReader_remaining_def BufferReader_new_def BufferReader_size_def)
  have r4: "BufferReader_remaining \<lparr>rd_data = ?d, rd_pos = 4\<rparr> < 4"
    by (simp add: BufferReader_remaining_def BufferReader_size_def)
  have v: "u32_from_bytes little [0xEF, 0xBE, 0xAD, 0xDE] = 0xDEADBEEF"
    by (simp add: u32_from_bytes_def u32_of_le_bytes_def)
  from BufferReader_read_spec [OF i0, of 4 "u32_from_bytes little"] r0
  have a: "BufferReader_read 4 (u32_from_bytes little) (BufferReader_new ?d)
       = Inr (Some 0xDEADBEEF, \<lparr>rd_data = ?d, rd_pos = 4\<rparr>)"
    by (simp add: BufferReader_new_def v)
  from BufferReader_read_spec [OF i4, of 4 "u32_from_bytes little"] r4
  have b: "BufferReader_read 4 (u32_from_bytes little) \<lparr>rd_data = ?d, rd_pos = 4\<rparr>
       = Inr (None, \<lparr>rd_data = ?d, rd_pos = 4\<rparr>)"
    by simp
  from i0 r0 a r4 b show ?thesis
    by simp
qed

text \<open>
  Claim C4: for every reader within its invariant: if no zero byte occurs at any index
  in \<open>[position(), size())\<close>, \<open>readNullTerminatedString()\<close> returns none and leaves the
  reader as it was; if the first zero byte at or after \<open>position()\<close> is at index \<open>z\<close>,
  it returns the bytes \<open>[position(), z)\<close> and sets \<open>position()\<close> to \<open>z + 1\<close>.
\<close>

theorem readNullTerminatedString_spec:
  assumes "reader_inv r"
  shows "(0 \<notin> set (drop (unat (rd_pos r)) (rd_data r)) \<longrightarrow>
            BufferReader_readNullTerminatedString r = Inr (None, r))
       \<and> (unat (rd_pos r) \<le> z \<and> z < length (rd_data r) \<and> rd_data r ! z = 0
            \<and> 0 \<notin> set (take (z - unat (rd_pos r)) (drop (unat (rd_pos r)) (rd_data r))) \<longrightarrow>
            BufferReader_readNullTerminatedString r =
              Inr (Some (take (z - unat (rd_pos r)) (drop (unat (rd_pos r)) (rd_data r))),
                   r\<lparr>rd_pos := of_nat z + 1\<rparr>)
            \<and> unat (of_nat z + 1 :: usize) = z + 1)"
  using readNullTerminatedString_none [OF assms]
    readNullTerminatedString_some [OF assms, of z]
  by blast

theorem readNullTerminatedString_spec_witness:
  "reader_inv \<lparr>rd_data = [65, 66, 67], rd_pos = 1\<rparr>
   \<and> 0 \<notin> set (drop 1 [65, 66, 67 :: byte])
   \<and> BufferReader_readNullTerminatedString \<lparr>rd_data = [65, 66, 67], rd_pos = 1\<rparr>
       = Inr (None, \<lparr>rd_data = [65, 66, 67], rd_pos = 1\<rparr>)
   \<and> reader_inv \<lparr>rd_data = [65, 66, 67, 0, 68, 0], rd_pos = 1\<rparr>
   \<and> [65, 66, 67, 0, 68, 0 :: byte] ! 3 = 0
   \<and> 0 \<notin> set (take 2 (drop 1 [65, 66, 67, 0, 68, 0 :: byte]))
   \<and> BufferReader_readNullTerminatedString \<lparr>rd_data = [65, 66, 67, 0, 68, 0], rd_pos = 1\<rparr>
       = Inr (Some [66, 67], \<lparr>rd_data = [65, 66, 67, 0, 68, 0], rd_pos = 4\<rparr>)"
proof -
  have i1: "reader_inv \<lparr>rd_data = [65, 66, 67], rd_pos = 1\<rparr>"
    by (simp add: reader_inv_def BufferReader_size_def)
  have i2: "reader_inv \<lparr>rd_data = [65, 66, 67, 0, 68, 0], rd_pos = 1\<rparr>"
    by (simp add: reader_inv_def BufferReader_size_def)
  from readNullTerminatedString_spec [OF i1, of 0]
  have a: "BufferReader_readNullTerminatedString \<lparr>rd_data = [65, 66, 67], rd_pos = 1\<rparr>
       = Inr (None, \<lparr>rd_data = [65, 66, 67], rd_pos = 1\<rparr>)"
    by simp
  from readNullTerminatedString_spec [OF i2, of 3]
  have b: "BufferReader_readNullTerminatedString \<lparr>rd_data = [65, 66, 67, 0, 68, 0], rd_pos = 1\<rparr>
       = Inr (Some [66, 67], \<lparr>rd_data = [65, 66, 67, 0, 68, 0], rd_pos = 4\<rparr>)"
    by simp
  from i1 i2 a b show ?thesis
    by simp
qed

text \<open>
  Claim C5, as stated, on the three bytes 1, 1, 0 with \<open>maxLength = 2\<close>: the window
  \<open>[0, 2)\<close> holds no zero byte and the two scanned bytes are returned, but the cursor
  ends at 3, not at 2, because the zero byte just past the window is skipped as well.
\<close>

theorem readNullTerminatedString_max_counterexample:
  "0 \<notin> set (take 2 [1, 1, 0 :: byte])
   \<and> BufferReader_readNullTerminatedString_max (BufferReader_new [1, 1, 0]) 2
       = Inr (Some [1, 1], \<lparr>rd_data = [1, 1, 0], rd_pos = 3\<rparr>)"
proof -
  have s1: "scan_nul [1, 1, 0] 2 0 = scan_nul [1, 1, 0] 2 1"
    by (subst scan_nul.simps) simp
  have s2: "scan_nul [1, 1, 0] 2 1 = scan_nul [1, 1, 0] 2 2"
    by (subst scan_nul.simps) simp
  have s3: "scan_nul [1, 1, 0] 2 2 = 2"
    by (subst scan_nul.simps) simp
  show ?thesis
    by (simp add: BufferReader_readNullTerminatedString_max_def BufferReader_new_def
        BufferReader_size_def Let_def s1 s2 s3 bytes_at_def)
qed

text \<open>
  Claim C5, amended: for every reader within its invariant and every \<open>maxLength\<close> with
  \<open>position() + maxLength\<close> below \<open>2^64\<close>: if no zero byte occurs in the window
  \<open>[position(), position() + maxLength)\<close>, \<open>readNullTerminatedString(maxLength)\<close> still
  succeeds and returns the \<open>min(maxLength, remaining())\<close> bytes of the window; the cursor
  advances by that amount, and by one more when the byte right after the window lies
  inside the data and is zero. On a 10-byte buffer without zero bytes, \<open>maxLength = 5\<close>
  and position 0, it returns 5 bytes and leaves the cursor at 5.
\<close>

theorem readNullTerminatedString_max_spec:
  assumes "reader_inv r"
    and "unat (rd_pos r) + unat maxLength < 2 ^ 64"
    and "0 \<notin> set (take (unat maxLength) (drop (unat (rd_pos r)) (rd_data r)))"
  shows "\<exists>k. k = min (unat maxLength) (unat (BufferReader_remaining r))
           \<and> BufferReader_readNullTerminatedString_max r maxLength =
               Inr (Some (take k (drop (unat (rd_pos r)) (rd_data r))),
                    r\<lparr>rd_pos := rd_pos r + of_nat k
                          + (if unat (rd_pos r) + k < length (rd_data r)
                                \<and> rd_data r ! (unat (rd_pos r) + k) = 0 then 1 else 0)\<rparr>)
           \<and> length (take k (drop (unat (rd_pos r)) (rd_data r))) = k
           \<and> unat (rd_pos r + of_nat k :: usize) = unat (rd_pos r) + k"
  using readNullTerminatedString_max_lenient [OF assms] unat_reader_remaining [OF assms(1)]
  by simp

theorem readNullTerminatedString_max_spec_witness:
  "reader_inv (BufferReader_new [1, 2, 3, 4, 5, 6, 7, 8, 9, 10])
   \<and> unat (0 :: usize) + unat (5 :: usize) < 2 ^ 64
   \<and> 0 \<notin> set (take 5 [1, 2, 3, 4, 5, 6, 7, 8, 9, 10 :: byte])
   \<and> BufferReader_readNullTerminatedString_max (BufferReader_new [1, 2, 3, 4, 5, 6, 7, 8, 9, 10]) 5
       = Inr (Some [1, 2, 3, 4, 5], \<lparr>rd_data = [1, 2, 3, 4, 5, 6, 7, 8, 9, 10], rd_pos = 5\<rparr>)"
proof -
  let ?d = "[1, 2, 3, 4, 5, 6, 7, 8, 9, 10] :: byte list"
  have i: "reader_inv (BufferReader_new ?d)"
    by (simp add: reader_inv_def BufferReader_new_def BufferReader_size_def)
  have w: "unat (rd_pos (BufferReader_new ?d)) + unat (5 :: usize) < 2 ^ 64"
    by (simp add: BufferReader_new_def)
  have z: "0 \<notin> set (take (unat (5 :: usize))
             (drop (unat (rd_pos (BufferReader_new ?d))) (rd_data (BufferReader_new ?d))))"
    by (simp add: BufferReader_new_def)
  have rem: "BufferReader_remaining (BufferReader_new ?d) = 10"
    by (simp add: BufferReader_remaining_def BufferReader_new_def BufferReader_size_def)
  from readNullTerminatedString_max_spec [OF i w z]
  have "BufferReader_readNullTerminatedString_max (BufferReader_new ?d) 5
       = Inr (Some [1, 2, 3, 4, 5], \<lparr>rd_data = ?d, rd_pos = 5\<rparr>)"
    by (simp add: rem) (simp add: BufferReader_new_def)
  with i show ?thesis
    by simp
qed

text \<open>
  Claim C10: for every reader within its invariant with \<open>remaining() >= 4\<close> whose next
  four bytes decode to a length \<open>n\<close> with \<open>n > remaining() - 4\<close>,
  \<open>readLengthPrefixedString()\<close> returns none with \<open>position()\<close> advanced by exactly 4:
  the prefix stays consumed.
\<close>

theorem readLengthPrefixedString_consumes_prefix:
  assumes "reader_inv r"
    and "4 \<le> BufferReader_remaining r"
    and "ucast (u32_from_bytes native (take 4 (drop (unat (rd_pos r)) (rd_data r))))
           > BufferReader_remaining r - 4"
  shows "BufferReader_readLengthPrefixedString native r = Inr (None, r\<lparr>rd_pos := rd_pos r + 4\<rparr>)
         \<and> unat (BufferReader_position (r\<lparr>rd_pos := rd_pos r + 4\<rparr>))
             = unat (BufferReader_position r) + 4"
  using readLengthPrefixedString_short [OF assms]
  by (simp add: BufferReader_position_def)

theorem readLengthPrefixedString_consumes_prefix_witness:
  "reader_inv (BufferReader_new [5, 0, 0, 0, 65, 66])
   \<and> 4 \<le> BufferReader_remaining (BufferReader_new [5, 0, 0, 0, 65, 66])
   \<and> (ucast (u32_from_bytes little [5, 0, 0, 0]) :: usize)
         > BufferReader_remaining (BufferReader_new [5, 0, 0, 0, 65, 66]) - 4
   \<and> BufferReader_readLengthPrefixedString little (BufferReader_new [5, 0, 0, 0, 65, 66])
       = Inr (None, \<lparr>rd_data = [5, 0, 0, 0, 65, 66], rd_pos = 4\<rparr>)"
proof -
  let ?d = "[5, 0, 0, 0, 65, 66] :: byte list"
  have i: "reader_inv (BufferReader_new ?d)"
    by (simp add: reader_inv_def BufferReader_new_def BufferReader_size_def)
  have rem: "BufferReader_remaining (BufferReader_new ?d) = 6"
    by (simp add: BufferReader_remaining_def BufferReader_new_def BufferReader_size_def)
  have four: "4 \<le> BufferReader_remaining (BufferReader_new ?d)"
    by (simp add: rem)
  have v: "u32_from_bytes little [5, 0, 0, 0] = 5"
    by (simp add: u32_from_bytes_def u32_of_le_bytes_def)
  have long: "ucast (u32_from_bytes little
                 (take 4 (drop (unat (rd_pos (BufferReader_new ?d))) (rd_data (BufferReader_new ?d)))))
               > BufferReader_remaining (BufferReader_new ?d) - 4"
    by (simp add: rem) (simp add: BufferReader_new_def v)
  from readLengthPrefixedString_consumes_prefix [OF i four long]
  have "BufferReader_readLengthPrefixedString little (BufferReader_new ?d)
       = Inr (None, \<lparr>rd_data = ?d, rd_pos = 4\<rparr>)"
    by (simp add: BufferReader_new_def)
  with i four long show ?thesis
    by (simp add: rem v)
qed

section \<open>Properties of Buffer and BufferWriter\<close>

text \<open>
  Claim C1 at its own inputs, on either endianness and whatever the uninitialised storage
  holds: after \<open>w.writeU32(v); w.writeLengthPrefixedString(s)\<close> on a fresh writer, a
  reader over \<open>w.toBuffer().span()\<close> gets 0 from \<open>readU32()\<close> and the empty string from
  \<open>readLengthPrefixedString()\<close>, and is not at the end, both for \<open>v = 42\<close>, \<open>s = "ok"\<close>
  and for \<open>v = 0xDEADBEEF\<close>, \<open>s = "hello"\<close>. Each write copies its bytes into reserved
  storage past \<open>size()\<close>, and the \<open>resize\<close> in \<open>updateSize\<close> then makes those positions
  value-initialised elements.
\<close>

theorem write_then_read_loses_values:
  "write_then_read native junk 42 [0x6F, 0x6B] = Inr (Some 0, Some [], False)
   \<and> write_then_read native junk 0xDEADBEEF [0x68, 0x65, 0x6C, 0x6C, 0x6F]
       = Inr (Some 0, Some [], False)"
proof -
  have "length [0x6F, 0x6B :: byte] < 2 ^ 32"
    and "length [0x68, 0x65, 0x6C, 0x6C, 0x6F :: byte] < 2 ^ 32"
    by simp_all
  from this [THEN write_then_read_zeroed] show ?thesis
    by simp
qed

text \<open>
  Claim C2, as stated, on a 3-byte buffer with offset 1 and count 5: the offset is in
  range and the count exceeds the two bytes available, but the call breaks the
  precondition of \<open>std::span::subspan\<close> instead of yielding a 2-byte view.
\<close>

theorem Buffer_subspan_counterexample:
  "1 \<le> Buffer_size \<lparr>m_data = [1, 2, 3], m_spare = []\<rparr>
   \<and> Buffer_subspan \<lparr>m_data = [1, 2, 3], m_spare = []\<rparr> 1 5 = Inl PreconditionViolated"
  by (simp add: Buffer_subspan_def std_span_subspan_def Buffer_size_def dynamic_extent_def)

text \<open>
  Claim C2, amended: for every buffer \<open>b\<close>, every offset with \<open>offset <= b.size()\<close> and
  every count that is \<open>dynamic_extent\<close> or at most \<open>b.size() - offset\<close>,
  \<open>b.subspan(offset, count)\<close> returns a view of exactly \<open>min(count, b.size() - offset)\<close>
  bytes starting at \<open>offset\<close>, all of them inside \<open>b\<close>.
\<close>

theorem Buffer_subspan_spec:
  assumes "length (m_data b) < 2 ^ 64"
    and "offset \<le> Buffer_size b"
    and "count = dynamic_extent \<or> count \<le> Buffer_size b - offset"
  shows "Buffer_subspan b offset count =
           Inr \<lparr>span_data = unat offset, span_size = min count (Buffer_size b - offset)\<rparr>
         \<and> unat offset + unat (min count (Buffer_size b - offset)) \<le> length (m_data b)"
proof -
  have top: "x = - 1" if "- 1 \<le> x" for x :: usize
    using that by (intro order.antisym) simp_all
  have m: "min count (Buffer_size b - offset)
             = (if count = dynamic_extent then Buffer_size b - offset else count)"
    using assms(3) by (auto simp add: dynamic_extent_def min_def dest: top)
  have usz: "unat (Buffer_size b) = length (m_data b)"
    unfolding Buffer_size_def by (rule unat_of_nat_usize [OF assms(1)])
  have "unat (min count (Buffer_size b - offset)) \<le> unat (Buffer_size b - offset)"
    by (simp add: word_le_nat_alt [symmetric])
  also have "\<dots> = length (m_data b) - unat offset"
    using unat_sub [OF assms(2)] usz by simp
  finally have "unat offset + unat (min count (Buffer_size b - offset)) \<le> length (m_data b)"
    using assms(2) usz by (simp add: word_le_nat_alt)
  moreover have "Buffer_subspan b offset count =
           Inr \<lparr>span_data = unat offset, span_size = min count (Buffer_size b - offset)\<rparr>"
    using assms(2,3) unfolding m by (simp add: Buffer_subspan_def std_span_subspan_def)
  ultimately show ?thesis
    by simp
qed

theorem Buffer_subspan_spec_witness:
  "length (m_data \<lparr>m_data = [1, 2, 3], m_spare = []\<rparr>) < 2 ^ 64
   \<and> 1 \<le> Buffer_size \<lparr>m_data = [1, 2, 3], m_spare = []\<rparr>
   \<and> 2 \<le> Buffer_size \<lparr>m_data = [1, 2, 3], m_spare = []\<rparr> - 1
   \<and> Buffer_subspan \<lparr>m_data = [1, 2, 3], m_spare = []\<rparr> 1 2
       = Inr \<lparr>span_data = 1, span_size = 2\<rparr>
   \<and> Buffer_subspan \<lparr>m_data = [1, 2, 3], m_spare = []\<rparr> 1 dynamic_extent
       = Inr \<lparr>span_data = 1, span_size = 2\<rparr>"
proof -
  let ?b = "\<lparr>m_data = [1, 2, 3 :: byte], m_spare = []\<rparr>"
  have l: "length (m_data ?b) < 2 ^ 64"
    by simp
  have sz: "Buffer_size ?b = 3"
    by (simp add: Buffer_size_def)
  have o: "1 \<le> Buffer_size ?b"
    by (simp add: sz)
  have c: "2 = dynamic_extent \<or> 2 \<le> Buffer_size ?b - 1"
    by (simp add: sz)
  have c': "dynamic_extent = dynamic_extent \<or> dynamic_extent \<le> Buffer_size ?b - 1"
    by simp
  have d: "min dynamic_extent (2 :: usize) = 2"
    by (simp add: dynamic_extent_def)
  from Buffer_subspan_spec [OF l o c]
  have x: "Buffer_subspan ?b 1 2 = Inr \<lparr>span_data = 1, span_size = 2\<rparr>"
    by (simp add: sz)
  from Buffer_subspan_spec [OF l o c']
  have y: "Buffer_subspan ?b 1 dynamic_extent = Inr \<lparr>span_data = 1, span_size = 2\<rparr>"
    by (simp add: sz d)
  from l o c x y show ?thesis
    by (simp add: sz)
qed

section \<open>Properties of PoolAllocator\<close>

text \<open>
  Claim C7: for every pool whose region size \<open>m_blockSize * m_blockCount\<close> fits \<open>usize\<close>
  and was allocated, the constructor succeeds, and after every sequence of
  \<open>allocate\<close>/\<open>deallocate\<close> calls in which \<open>deallocate\<close> gets null or a block handed out
  and not yet given back (the run then never stops on an assertion or any other fault):
  \<open>freeCount()\<close> plus the number of blocks handed out equals \<open>blockCount()\<close>,
  \<open>freeCount() <= blockCount()\<close>, and \<open>allocate\<close> returns null exactly when the size
  exceeds \<open>blockSize()\<close> or \<open>freeCount() == 0\<close>. The sequence is arbitrary, so this holds
  after each of its calls.
\<close>

theorem pool_invariant:
  assumes "unat (max blockSize sizeof_FreeBlock) * unat blockCount < 2 ^ 64"
  shows "\<exists>p0. PoolAllocator_new (Some base) mem blockSize blockCount = Inr p0 \<and>
           (\<forall>ops. case pool_run (p0, {}) ops of
                     Inl f \<Rightarrow> f = PreconditionViolated
                   | Inr (p, live) \<Rightarrow>
                       unat (pool_freeCount p) + card live = unat (pool_blockCount p)
                       \<and> pool_freeCount p \<le> pool_blockCount p
                       \<and> (\<forall>sz al. fst (PoolAllocator_allocate p sz al) = nullptr
                                    \<longleftrightarrow> sz > pool_blockSize p \<or> pool_freeCount p = 0))"
proof -
  from PoolAllocator_new_inv [OF assms, of base mem]
  obtain p0 where new: "PoolAllocator_new (Some base) mem blockSize blockCount = Inr p0"
    and inv0: "pool_inv p0 {}"
    by blast
  have "case pool_run (p0, {}) ops of
          Inl f \<Rightarrow> f = PreconditionViolated
        | Inr (p, live) \<Rightarrow>
            unat (pool_freeCount p) + card live = unat (pool_blockCount p)
            \<and> pool_freeCount p \<le> pool_blockCount p
            \<and> (\<forall>sz al. fst (PoolAllocator_allocate p sz al) = nullptr
                         \<longleftrightarrow> sz > pool_blockSize p \<or> pool_freeCount p = 0)" for ops
  proof (cases "pool_run (p0, {}) ops")
    case (Inl f)
    with pool_run_inv [OF inv0, of ops] show ?thesis
      by simp
  next
    case (Inr s)
    obtain p live where s: "s = (p, live)"
      by (cases s)
    from pool_run_inv [OF inv0, of ops] Inr s have inv: "pool_inv p live"
      by simp
    note c = pool_inv_counts [OF inv]
    have "fst (PoolAllocator_allocate p sz al) = nullptr
            \<longleftrightarrow> sz > pool_blockSize p \<or> pool_freeCount p = 0" for sz al
      using c(3) by (auto simp add: PoolAllocator_allocate_def Let_def)
    with c(1,2) show ?thesis
      unfolding Inr s by simp
  qed
  with new show ?thesis
    by blast
qed

theorem pool_invariant_witness:
  "unat (max (16 :: usize) sizeof_FreeBlock) * unat (2 :: usize) < 2 ^ 64
   \<and> (\<exists>p0 p. PoolAllocator_new (Some 1000) (\<lambda>_. nullptr) 16 2 = Inr p0
         \<and> pool_run (p0, {})
             [Allocate 8 8, Allocate 16 8, Allocate 1 8, Deallocate (Some 1000) 16]
             = Inr (p, {1016})
         \<and> pool_freeCount p = 1 \<and> pool_blockCount p = 2
         \<and> unat (pool_freeCount p) + card {1016 :: nat} = unat (pool_blockCount p)
         \<and> pool_freeCount p \<le> pool_blockCount p
         \<and> fst (PoolAllocator_allocate p 17 8) = nullptr
         \<and> fst (PoolAllocator_allocate p 16 8) \<noteq> nullptr)"
proof -
  let ?ops = "[Allocate 8 8, Allocate 16 8, Allocate 1 8, Deallocate (Some 1000) 16]"
  have h: "unat (max (16 :: usize) sizeof_FreeBlock) * unat (2 :: usize) < 2 ^ 64"
    by (simp add: sizeof_FreeBlock_def)
  from pool_invariant [OF h, of 1000 "\<lambda>_. nullptr"]
  obtain p0 where new: "PoolAllocator_new (Some 1000) (\<lambda>_. nullptr) 16 2 = Inr p0"
    and spec: "case pool_run (p0, {}) ?ops of
                 Inl f \<Rightarrow> f = PreconditionViolated
               | Inr (p, live) \<Rightarrow>
                   unat (pool_freeCount p) + card live = unat (pool_blockCount p)
                   \<and> pool_freeCount p \<le> pool_blockCount p
                   \<and> (\<forall>sz al. fst (PoolAllocator_allocate p sz al) = nullptr
                                \<longleftrightarrow> sz > pool_blockSize p \<or> pool_freeCount p = 0)"
    by blast
  have "[0..<unat (2 :: usize)] = [0, 1]"
    by (simp add: upt_rec)
  then have p0: "p0 = \<lparr>pool_buffer = 1000, pool_freeList = Some 1016, pool_blockSize = 16,
                 pool_blockCount = 2, pool_freeCount = 2,
                 pool_next = (\<lambda>_. nullptr)(1000 := nullptr, 1016 := Some 1000)\<rparr>"
    using new by (simp add: PoolAllocator_new_def sizeof_FreeBlock_def Let_def)
  let ?p = "\<lparr>pool_buffer = 1000, pool_freeList = Some 1000, pool_blockSize = 16,
                 pool_blockCount = 2, pool_freeCount = 1,
                 pool_next = (\<lambda>_. nullptr)(1000 := nullptr, 1016 := Some 1000)\<rparr>"
  have run: "pool_run (p0, {}) ?ops = Inr (?p, {1016})"
    unfolding p0 by (simp add: PoolAllocator_allocate_def PoolAllocator_deallocate_def Let_def)
  from spec have "unat (pool_freeCount ?p) + card {1016 :: nat} = unat (pool_blockCount ?p)
                   \<and> pool_freeCount ?p \<le> pool_blockCount ?p
                   \<and> (\<forall>sz al. fst (PoolAllocator_allocate ?p sz al) = nullptr
                                \<longleftrightarrow> sz > pool_blockSize ?p \<or> pool_freeCount ?p = 0)"
    unfolding run by simp
  with h new run show ?thesis
    by (intro conjI exI [of _ p0] exI [of _ ?p]) simp_all
qed

section \<open>Properties of HeapAllocator\<close>

text \<open>
  Claim C9, as stated, when the platform allocation fails: reallocating the live 4-byte
  block at address 100 to 8 bytes returns null and leaves the heap as it was; the old
  block is not freed and no new block is returned.
\<close>

theorem HeapAllocator_reallocate_counterexample:
  "isPowerOfTwo (8 :: usize)
   \<and> HeapAllocator_reallocate Posix nullptr 0 [100 \<mapsto> [1, 2, 3, 4]] (Some 100) 4 8 8
       = Inr (nullptr, [100 \<mapsto> [1, 2, 3, 4]])"
proof -
  have "isPowerOfTwo (2 ^ 3 :: usize)"
    by (rule isPowerOfTwo_exp) simp
  then have h: "isPowerOfTwo (8 :: usize)"
    by simp
  then show ?thesis
    by (simp add: HeapAllocator_reallocate_def HeapAllocator_allocate_def alignUp_def)
qed

text \<open>
  Claim C9, amended: for every call \<open>reallocate(ptr, oldSize, newSize, alignment)\<close>: if
  \<open>newSize == 0\<close> it deallocates \<open>ptr\<close> and returns null; if \<open>ptr\<close> is null (and
  \<open>newSize\<close> is not 0) it behaves exactly as \<open>allocate(newSize, alignment)\<close>. Otherwise,
  when \<open>ptr\<close> is a live block of at least \<open>oldSize\<close> bytes and, on the platforms where
  \<open>allocate\<close> rounds the size with \<open>alignUp\<close> (all but Windows), \<open>alignment\<close> is a power
  of two with \<open>newSize + alignment <= 2^64\<close>: it never grows the block in place; when
  the fresh allocation succeeds it copies exactly \<open>min(oldSize, newSize)\<close> bytes of the
  old block to the start of the new block, of at least \<open>newSize\<close> bytes, frees the old
  block and returns the new one; when the allocation fails it returns null and leaves the
  old block live and unchanged. Nothing is said of a \<open>newSize\<close> closer to \<open>2^64\<close> than
  that.
\<close>

theorem HeapAllocator_reallocate_spec:
  "(newSize = 0 \<longrightarrow>
      HeapAllocator_reallocate pf fresh junk h ptr oldSize newSize alignment =
        (case HeapAllocator_deallocate h ptr oldSize of
           Inl f \<Rightarrow> Inl f
         | Inr h' \<Rightarrow> Inr (nullptr, h')))
   \<and> (newSize \<noteq> 0 \<longrightarrow>
      HeapAllocator_reallocate pf fresh junk h nullptr oldSize newSize alignment =
        HeapAllocator_allocate pf fresh junk h newSize alignment)
   \<and> (newSize \<noteq> 0 \<and> h a = Some old \<and> unat oldSize \<le> length old
       \<and> (pf = Posix \<longrightarrow> isPowerOfTwo alignment \<and> unat newSize + unat alignment \<le> 2 ^ 64) \<longrightarrow>
      HeapAllocator_reallocate pf nullptr junk h (Some a) oldSize newSize alignment
        = Inr (nullptr, h)
      \<and> (n \<notin> dom h \<longrightarrow>
           (\<exists>len. unat newSize \<le> len
              \<and> HeapAllocator_reallocate pf (Some n) junk h (Some a) oldSize newSize alignment
                  = Inr (Some n,
                         (h(n \<mapsto> take (unat (min oldSize newSize)) old
                                   @ replicate (len - unat (min oldSize newSize)) junk))
                           (a := None)))))"
proof (intro conjI impI)
  assume "newSize = 0"
  then show "HeapAllocator_reallocate pf fresh junk h ptr oldSize newSize alignment =
        (case HeapAllocator_deallocate h ptr oldSize of
           Inl f \<Rightarrow> Inl f
         | Inr h' \<Rightarrow> Inr (nullptr, h'))"
    by (simp add: HeapAllocator_reallocate_def)
next
  assume "newSize \<noteq> 0"
  then show "HeapAllocator_reallocate pf fresh junk h nullptr oldSize newSize alignment =
        HeapAllocator_allocate pf fresh junk h newSize alignment"
    by (simp add: HeapAllocator_reallocate_def)
next
  assume a: "newSize \<noteq> 0 \<and> h a = Some old \<and> unat oldSize \<le> length old
       \<and> (pf = Posix \<longrightarrow> isPowerOfTwo alignment \<and> unat newSize + unat alignment \<le> 2 ^ 64)"
  then show "HeapAllocator_reallocate pf nullptr junk h (Some a) oldSize newSize alignment
        = Inr (nullptr, h)"
    by (intro HeapAllocator_reallocate_moves(1) [of newSize h a old oldSize]) simp_all
next
  assume a: "newSize \<noteq> 0 \<and> h a = Some old \<and> unat oldSize \<le> length old
       \<and> (pf = Posix \<longrightarrow> isPowerOfTwo alignment \<and> unat newSize + unat alignment \<le> 2 ^ 64)"
    and n: "n \<notin> dom h"
  from a have "newSize \<noteq> 0" "h a = Some old" "unat oldSize \<le> length old"
    "pf = Posix \<longrightarrow> isPowerOfTwo alignment \<and> unat newSize + unat alignment \<le> 2 ^ 64"
    by simp_all
  from HeapAllocator_reallocate_moves(2) [OF this n]
  show "\<exists>len. unat newSize \<le> len
              \<and> HeapAllocator_reallocate pf (Some n) junk h (Some a) oldSize newSize alignment
                  = Inr (Some n,
                         (h(n \<mapsto> take (unat (min oldSize newSize)) old
                                   @ replicate (len - unat (min oldSize newSize)) junk))
                           (a := None))" .
qed

theorem HeapAllocator_reallocate_spec_witness:
  "isPowerOfTwo (8 :: usize)
   \<and> HeapAllocator_reallocate Posix (Some 200) 0 [100 \<mapsto> [1, 2, 3, 4]] (Some 100) 4 0 8
       = Inr (nullptr, Map.empty)
   \<and> HeapAllocator_reallocate Posix (Some 200) 0 [100 \<mapsto> [1, 2, 3, 4]] nullptr 4 6 8
       = HeapAllocator_allocate Posix (Some 200) 0 [100 \<mapsto> [1, 2, 3, 4]] 6 8
   \<and> HeapAllocator_reallocate Posix nullptr 0 [100 \<mapsto> [1, 2, 3, 4]] (Some 100) 4 6 8
       = Inr (nullptr, [100 \<mapsto> [1, 2, 3, 4]])
   \<and> (\<exists>len. unat (6 :: usize) \<le> len
         \<and> HeapAllocator_reallocate Posix (Some 200) 0 [100 \<mapsto> [1, 2, 3, 4]] (Some 100) 4 6 8
             = Inr (Some 200,
                    ([100 \<mapsto> [1, 2, 3, 4], 200 \<mapsto> take (unat (min (4 :: usize) 6)) [1, 2, 3, 4]
                         @ replicate (len - unat (min (4 :: usize) 6)) 0])(100 := None)))
   \<and> HeapAllocator_reallocate Posix (Some 200) 0 [100 \<mapsto> [1, 2, 3, 4]] (Some 100) 4 6 8
       = Inr (Some 200, [200 \<mapsto> [1, 2, 3, 4, 0, 0, 0, 0]])"
proof -
  let ?h = "[100 \<mapsto> [1, 2, 3, 4 :: byte]]"
  have "isPowerOfTwo (2 ^ 3 :: usize)"
    by (rule isPowerOfTwo_exp) simp
  then have p: "isPowerOfTwo (8 :: usize)"
    by simp
  have al: "alignUp 6 8 = Inr 8"
    using p by (simp add: alignUp_def)
  have pre: "(6 :: usize) \<noteq> 0 \<and> ?h 100 = Some [1, 2, 3, 4]
       \<and> unat (4 :: usize) \<le> length [1, 2, 3, 4 :: byte]
       \<and> (Posix = Posix \<longrightarrow>
            isPowerOfTwo (8 :: usize) \<and> unat (6 :: usize) + unat (8 :: usize) \<le> 2 ^ 64)"
    using p by simp
  have fresh: "(200 :: nat) \<notin> dom ?h"
    by simp
  note spec0 = HeapAllocator_reallocate_spec
    [of 0 Posix "Some 200" 0 ?h "Some 100" 4 8 100 "[1, 2, 3, 4]" 200]
  note spec = HeapAllocator_reallocate_spec
    [of 6 Posix "Some 200" 0 ?h "Some 100" 4 8 100 "[1, 2, 3, 4]" 200]
  have a: "HeapAllocator_reallocate Posix (Some 200) 0 ?h (Some 100) 4 0 8 = Inr (nullptr, Map.empty)"
    using spec0 by (simp add: HeapAllocator_deallocate_def)
  have b: "HeapAllocator_reallocate Posix (Some 200) 0 ?h nullptr 4 6 8
       = HeapAllocator_allocate Posix (Some 200) 0 ?h 6 8"
    using spec by simp
  have c: "HeapAllocator_reallocate Posix nullptr 0 ?h (Some 100) 4 6 8 = Inr (nullptr, ?h)"
    using spec pre by blast
  have e: "\<exists>len. unat (6 :: usize) \<le> len
         \<and> HeapAllocator_reallocate Posix (Some 200) 0 ?h (Some 100) 4 6 8
             = Inr (Some 200,
                    (?h(200 \<mapsto> take (unat (min (4 :: usize) 6)) [1, 2, 3, 4]
                         @ replicate (len - unat (min (4 :: usize) 6)) 0))(100 := None))"
    using spec pre fresh by blast
  have r8: "replicate 8 (0 :: byte) = [0, 0, 0, 0, 0, 0, 0, 0]"
    by (simp add: eval_nat_numeral)
  have d: "HeapAllocator_reallocate Posix (Some 200) 0 ?h (Some 100) 4 6 8
       = Inr (Some 200, [200 \<mapsto> [1, 2, 3, 4, 0, 0, 0, 0]])"
    using p by (simp add: HeapAllocator_reallocate_def HeapAllocator_allocate_def al
        heap_memcpy_def HeapAllocator_deallocate_def r8 fun_upd_twist)
  from p a b c e d show ?thesis
    by blast
qed

end
